theory Spec2Isabelle
  imports Main "HOL-Library.AList" "HOL-Library.Sublist"
begin

section \<open>The subscription checkout page (client/src/pages/subscribe.tsx)\<close>

subsection \<open>Values of the host environment\<close>

text \<open>
  A JavaScript condition on a value of type \<open>string | null\<close> or \<open>string | undefined\<close>
  holds exactly when the value is a non-empty string. This is \<open>!!key\<close> of line 13; the
  conditions \<open>x || d\<close>, \<open>if (url)\<close> and \<open>if (error)\<close> are written out below as a case
  on the value with the test that the string is not empty.
\<close>

fun truthy :: "string option \<Rightarrow> bool" where
  "truthy None = False"
| "truthy (Some s) = (s \<noteq> [])"

text \<open>
  Modelled from the spec: the enum \<open>SubscriptionTier\<close> is imported from
  \<open>@shared/schema\<close>, which is not among the sources. The spec names the tiers
  Basic, Pro and Power and says that the query parameter \<open>"pro"\<close> stands for the
  Pro tier, so the enum is a string enum whose run-time values are the lower-case
  tier names.
\<close>

definition SubscriptionTier_Basic :: string where
  "SubscriptionTier_Basic = ''basic''"

definition SubscriptionTier_Pro :: string where
  "SubscriptionTier_Pro = ''pro''"

definition SubscriptionTier_Power :: string where
  "SubscriptionTier_Power = ''power''"

definition recognized_tiers :: "string set" where
  "recognized_tiers = {SubscriptionTier_Basic, SubscriptionTier_Pro, SubscriptionTier_Power}"

text \<open>
  \<open>new URLSearchParams(search)\<close> is the list of decoded name/value pairs of the query
  string, in order; \<open>get\<close> returns the value of the first pair with the name, or null.
\<close>

type_synonym URLSearchParams = "(string \<times> string) list"

definition URLSearchParams_get :: "URLSearchParams \<Rightarrow> string \<Rightarrow> string option" where
  "URLSearchParams_get params name = map_of params name"

text \<open>
  Line 22: \<open>params.get("tier") as SubscriptionTier || SubscriptionTier.Basic\<close>.
  The type assertion has no run-time effect: a non-empty parameter is passed on as it is.
\<close>

definition tier :: "URLSearchParams \<Rightarrow> string" where
  "tier params =
     (case URLSearchParams_get params ''tier'' of
        None \<Rightarrow> SubscriptionTier_Basic
      | Some t \<Rightarrow> if t \<noteq> [] then t else SubscriptionTier_Basic)"

text \<open>
  Line 13: \<open>const isStripeAvailable = !!import.meta.env.VITE_STRIPE_PUBLIC_KEY\<close> is a
  binding of the module, evaluated when the module is evaluated. The process holds the
  current configuration value and the module's binding.
\<close>

record process =
  VITE_STRIPE_PUBLIC_KEY :: "string option"
  isStripeAvailable :: bool

definition evaluate_module :: "string option \<Rightarrow> process" where
  "evaluate_module key =
     \<lparr>VITE_STRIPE_PUBLIC_KEY = key, isStripeAvailable = truthy key\<rparr>"

text \<open>A later change of the configuration, as a test does between two runs.\<close>

definition set_config :: "string option \<Rightarrow> process \<Rightarrow> process" where
  "set_config key p = p\<lparr>VITE_STRIPE_PUBLIC_KEY := key\<rparr>"

record session =
  isAuthenticated :: bool

text \<open>
  A value caught by \<open>catch (err)\<close>: an instance of \<open>Error\<close> with its message, or any
  other thrown value (here a thrown string).
\<close>

datatype thrown = Error (message: string) | NonError string

datatype 'a promise = Pending | Fulfilled 'a | Rejected thrown

text \<open>The object \<open>createSubscription\<close> resolves with; \<open>url\<close> may be missing.\<close>

record checkout =
  url :: "string option"

subsection \<open>Component state and observable effects\<close>

record state =
  isLoading :: bool
  error :: "string option"

definition initial :: state where
  "initial = \<lparr>isLoading = True, error = None\<rparr>"

datatype effect =
    Navigate string
  | SetError string
  | SetIsLoading bool
  | CreateSubscription string
  | SetLocationHref string
  | ConsoleError thrown

subsection \<open>The checkout effect (lines 75 to 110)\<close>

text \<open>
  The body of the \<open>try\<close> block: the effects performed, and how the block completes.
  A rejected \<open>await\<close> leaves the block with the thrown value.
\<close>

definition try_block ::
  "string \<Rightarrow> (string \<Rightarrow> checkout promise) \<Rightarrow> effect list \<times> unit promise" where
  "try_block t createSubscription =
     (case createSubscription t of
        Pending \<Rightarrow> ([CreateSubscription t], Pending)
      | Rejected err \<Rightarrow> ([CreateSubscription t], Rejected err)
      | Fulfilled r \<Rightarrow>
          (case url r of
             Some u \<Rightarrow>
               if u \<noteq> [] then ([CreateSubscription t, SetLocationHref u], Fulfilled ())
               else ([CreateSubscription t,
                      SetError ''Failed to create checkout session'',
                      SetIsLoading False], Fulfilled ())
           | None \<Rightarrow>
               ([CreateSubscription t,
                 SetError ''Failed to create checkout session'',
                 SetIsLoading False], Fulfilled ())))"

definition catch_block :: "thrown \<Rightarrow> effect list \<times> unit promise" where
  "catch_block err =
     ([ConsoleError err,
       SetError (case err of Error m \<Rightarrow> m | NonError v \<Rightarrow> ''Failed to create subscription''),
       SetIsLoading False], Fulfilled ())"

definition setupSubscription ::
  "string \<Rightarrow> (string \<Rightarrow> checkout promise) \<Rightarrow> effect list \<times> unit promise" where
  "setupSubscription t createSubscription =
     (case try_block t createSubscription of
        (es, Rejected err) \<Rightarrow> (case catch_block err of (es', c) \<Rightarrow> (es @ es', c))
      | (es, c) \<Rightarrow> (es, c))"

definition checkout_effect ::
  "process \<Rightarrow> session \<Rightarrow> string \<Rightarrow> (string \<Rightarrow> checkout promise) \<Rightarrow> effect list \<times> unit promise" where
  "checkout_effect p s t createSubscription =
     (if \<not> isAuthenticated s then ([Navigate ''/''], Fulfilled ())
      else if \<not> isStripeAvailable p then
        ([SetError ''Payment system is not configured. Please contact the administrator.'',
          SetIsLoading False], Fulfilled ())
      else setupSubscription t createSubscription)"

text \<open>One run of the flow for the page at a given query string.\<close>

definition Subscribe ::
  "process \<Rightarrow> session \<Rightarrow> URLSearchParams \<Rightarrow> (string \<Rightarrow> checkout promise) \<Rightarrow> effect list \<times> unit promise" where
  "Subscribe p s params createSubscription = checkout_effect p s (tier params) createSubscription"

definition effects :: "effect list \<times> unit promise \<Rightarrow> effect list" where
  "effects r = fst r"

text \<open>The value that reaches the host as an unhandled rejection, if any.\<close>

definition unhandled :: "effect list \<times> unit promise \<Rightarrow> thrown option" where
  "unhandled r = (case snd r of Rejected err \<Rightarrow> Some err | _ \<Rightarrow> None)"

subsection \<open>What a run leaves behind\<close>

fun apply_effect :: "state \<Rightarrow> effect \<Rightarrow> state" where
  "apply_effect st (SetError m) = st\<lparr>error := Some m\<rparr>"
| "apply_effect st (SetIsLoading b) = st\<lparr>isLoading := b\<rparr>"
| "apply_effect st _ = st"

text \<open>The component state before and after each effect of a run, in order.\<close>

fun states :: "state \<Rightarrow> effect list \<Rightarrow> state list" where
  "states st [] = [st]"
| "states st (e # es) = st # states (apply_effect st e) es"

definition final :: "effect list \<Rightarrow> state" where
  "final es = foldl apply_effect initial es"

fun requested :: "effect list \<Rightarrow> string list" where
  "requested [] = []"
| "requested (CreateSubscription t # es) = t # requested es"
| "requested (_ # es) = requested es"

fun locations :: "effect list \<Rightarrow> string list" where
  "locations [] = []"
| "locations (SetLocationHref u # es) = u # locations es"
| "locations (_ # es) = locations es"

subsection \<open>Rendering (lines 112 to 165)\<close>

datatype view = Nothing | LoadingView | ErrorView string | RedirectingView

definition render :: "session \<Rightarrow> state \<Rightarrow> view" where
  "render s st =
     (if \<not> isAuthenticated s then Nothing
      else if isLoading st then LoadingView
      else (case error st of
              Some m \<Rightarrow> if m \<noteq> [] then ErrorView m else RedirectingView
            | None \<Rightarrow> RedirectingView))"

text \<open>The views of a run: one for every state the run passes through.\<close>

definition views :: "session \<Rightarrow> effect list \<Rightarrow> view list" where
  "views s es = map (render s) (states initial es)"

subsection \<open>Doubles for the checkout requester\<close>

definition never_settles :: "string \<Rightarrow> checkout promise" where
  "never_settles t = Pending"

definition resolves_with :: "checkout \<Rightarrow> string \<Rightarrow> checkout promise" where
  "resolves_with r t = Fulfilled r"

definition rejects_with :: "thrown \<Rightarrow> string \<Rightarrow> checkout promise" where
  "rejects_with err t = Rejected err"

definition signed_in :: session where
  "signed_in = \<lparr>isAuthenticated = True\<rparr>"

section \<open>The metadata effect (lines 26 to 73)\<close>

subsection \<open>The document tree\<close>

text \<open>
  A node is an element (local name, attributes in order, child nodes) or a text node.
  A document is the list of its child nodes (for a page, the single \<open>html\<close> element).
  All elements are HTML elements of an HTML document: tag names are lower-case local
  names, and ids are compared as they are written. Elements of other namespaces
  (inline SVG or MathML) are not modelled.
\<close>

datatype node =
    Element string "(string \<times> string) list" "node list"
  | Text string

type_synonym document = "node list"

text \<open>
  A reference to a node of the tree is its path: the index among the document's child
  nodes, then the index among that node's children, and so on. The node of a path is
  the node of a second path, or contains it, when the first path is a prefix of the
  second.
\<close>

type_synonym path = "nat list"

text \<open>A simple selector looks at the tag name and the attributes of an element.\<close>

type_synonym selector = "string \<Rightarrow> (string \<times> string) list \<Rightarrow> bool"

definition sel_meta_description :: selector where
  "sel_meta_description t a = (t = ''meta'' \<and> map_of a ''name'' = Some ''description'')"

definition sel_head :: selector where
  "sel_head t a = (t = ''head'')"

definition sel_title :: selector where
  "sel_title t a = (t = ''title'')"

definition sel_subscription_schema :: selector where
  "sel_subscription_schema t a =
     (t = ''script'' \<and> map_of a ''id'' = Some ''subscription-schema'')"

fun bump :: "path \<Rightarrow> path" where
  "bump [] = []"
| "bump (i # q) = Suc i # q"

text \<open>
  \<open>document.querySelector\<close>: the first matching element in tree order (an element
  before its children, the children before the following siblings), or null.
\<close>

function querySelector :: "selector \<Rightarrow> node list \<Rightarrow> path option" where
  "querySelector P [] = None"
| "querySelector P (Text s # ns) = map_option bump (querySelector P ns)"
| "querySelector P (Element t a cs # ns) =
     (if P t a then Some [0]
      else (case querySelector P cs of
              Some q \<Rightarrow> Some (0 # q)
            | None \<Rightarrow> map_option bump (querySelector P ns)))"
  by pat_completeness auto
termination
  by (relation "measure (\<lambda>(P, ns). size_list size ns)") auto

text \<open>The number of elements of the tree that match a selector.\<close>

function count_matches :: "selector \<Rightarrow> node list \<Rightarrow> nat" where
  "count_matches P [] = 0"
| "count_matches P (Text s # ns) = count_matches P ns"
| "count_matches P (Element t a cs # ns) =
     (if P t a then 1 else 0) + count_matches P cs + count_matches P ns"
  by pat_completeness auto
termination
  by (relation "measure (\<lambda>(P, ns). size_list size ns)") auto

fun node_at :: "path \<Rightarrow> node list \<Rightarrow> node option" where
  "node_at [] ns = None"
| "node_at (i # q) [] = None"
| "node_at (0 # q) (Text s # ns) = (if q = [] then Some (Text s) else None)"
| "node_at (0 # q) (Element t a cs # ns) =
     (if q = [] then Some (Element t a cs) else node_at q cs)"
| "node_at (Suc i # q) (n # ns) = node_at (i # q) ns"

text \<open>\<open>node.remove()\<close>: the node at the path leaves the tree, with all its descendants.\<close>

fun remove_at :: "path \<Rightarrow> node list \<Rightarrow> node list" where
  "remove_at [] ns = ns"
| "remove_at (i # q) [] = []"
| "remove_at (0 # q) (Text s # ns) = (if q = [] then ns else Text s # ns)"
| "remove_at (0 # q) (Element t a cs # ns) =
     (if q = [] then ns else Element t a (remove_at q cs) # ns)"
| "remove_at (Suc i # q) (n # ns) = n # remove_at (i # q) ns"

text \<open>A change of the node at the path, in place.\<close>

fun modify_at :: "path \<Rightarrow> (node \<Rightarrow> node) \<Rightarrow> node list \<Rightarrow> node list" where
  "modify_at [] f ns = ns"
| "modify_at (i # q) f [] = []"
| "modify_at (0 # q) f (Text s # ns) = (if q = [] then f (Text s) # ns else Text s # ns)"
| "modify_at (0 # q) f (Element t a cs # ns) =
     (if q = [] then f (Element t a cs) # ns else Element t a (modify_at q f cs) # ns)"
| "modify_at (Suc i # q) f (n # ns) = n # modify_at (i # q) f ns"

text \<open>
  The code keeps the reference \<open>head\<close> across \<open>existingSchema.remove()\<close>. Where the node
  that \<open>h\<close> referred to is found after the node at the first path was removed: nowhere in
  the document when it was that node or inside it, one place to the left when the
  removed node was an earlier sibling of it or of one of its ancestors, and where it
  was otherwise.
\<close>

fun relocate :: "path \<Rightarrow> path \<Rightarrow> path option" where
  "relocate [] h = Some h"
| "relocate (i # q) [] = Some []"
| "relocate (i # q) (j # h) =
     (if q = [] then
        (if i = j then None else if i < j then Some ((j - 1) # h) else Some (j # h))
      else if i = j then map_option ((#) j) (relocate q h)
      else Some (j # h))"

fun appendChild :: "node \<Rightarrow> node \<Rightarrow> node" where
  "appendChild c (Element t a cs) = Element t a (cs @ [c])"
| "appendChild c (Text s) = Text s"

fun setAttribute :: "string \<Rightarrow> string \<Rightarrow> node \<Rightarrow> node" where
  "setAttribute k v (Element t a cs) = Element t (AList.update k v a) cs"
| "setAttribute k v (Text s) = Text s"

subsection \<open>Setting the title (line 28)\<close>

text \<open>
  The children a node gets when its text is set: one text node, or none for the empty
  string.
\<close>

definition text_children :: "string \<Rightarrow> node list" where
  "text_children v = (if v = [] then [] else [Text v])"

fun string_replace_all :: "string \<Rightarrow> node \<Rightarrow> node" where
  "string_replace_all v (Element t a cs) = Element t a (text_children v)"
| "string_replace_all v (Text s) = Text s"

text \<open>The index of the first child element that matches, among the children only.\<close>

fun first_child :: "selector \<Rightarrow> node list \<Rightarrow> nat option" where
  "first_child P [] = None"
| "first_child P (Text s # ns) = map_option Suc (first_child P ns)"
| "first_child P (Element t a cs # ns) =
     (if P t a then Some 0 else map_option Suc (first_child P ns))"

text \<open>
  The head element of a document: the first \<open>head\<close> child of the document element,
  when that is an \<open>html\<close> element.
\<close>

fun head_element :: "node list \<Rightarrow> path option" where
  "head_element [] = None"
| "head_element (Text s # ns) = map_option bump (head_element ns)"
| "head_element (Element t a cs # ns) =
     (if t = ''html'' then map_option (\<lambda>j. [0, j]) (first_child sel_head cs) else None)"

text \<open>
  The setter of \<open>document.title\<close>, as the HTML standard defines it for a document of
  HTML elements. The title element is the first \<open>title\<close> element of the document in
  tree order. When there is one, its children are replaced by the new text; whatever
  was inside it, a head element included, leaves the document. When there is none but
  the document has a head element, a new \<open>title\<close> element with the text becomes the
  last child of that head. Otherwise nothing changes.
\<close>

definition set_title :: "string \<Rightarrow> node list \<Rightarrow> node list" where
  "set_title v ns =
     (case querySelector sel_title ns of
        Some titleElement \<Rightarrow> modify_at titleElement (string_replace_all v) ns
      | None \<Rightarrow>
          (case head_element ns of
             Some headElement \<Rightarrow>
               modify_at headElement (appendChild (Element ''title'' [] (text_children v))) ns
           | None \<Rightarrow> ns))"

subsection \<open>The effect\<close>

definition document_title :: string where
  "document_title = ''Upgrade Your Plan - AI LaTeX Generator''"

text \<open>Lines 31 to 35: an existing description is updated, a missing one is not created.\<close>

definition update_description :: "node list \<Rightarrow> node list" where
  "update_description ns =
     (case querySelector sel_meta_description ns of
        Some metaDescription \<Rightarrow>
          modify_at metaDescription (setAttribute ''content''
            ''Upgrade your AI LaTeX Generator subscription plan. Choose from Basic, Pro, and Power plans to unlock more document generations per month.'') ns
      | None \<Rightarrow> ns)"

text \<open>Lines 50 to 68, as \<open>JSON.stringify\<close> writes them.\<close>

definition schemaData :: string where
  \<open>schemaData = ''{"@context":"https://schema.org","@type":"Product","name":"AI LaTeX Generator Subscription","description":"Subscribe to AI LaTeX Generator and create professional LaTeX documents with AI assistance","offers":{"@type":"AggregateOffer","lowPrice":"0.99","highPrice":"19.99","priceCurrency":"USD","offerCount":"5"},"category":"Software Subscription","image":"https://aitexgen.com/subscription.png","brand":{"@type":"Brand","name":"AI LaTeX Generator"}}''\<close>

text \<open>Lines 45 to 47 and 70: the new script element.\<close>

definition schemaScript :: node where
  "schemaScript =
     Element ''script'' [(''type'', ''application/ld+json''), (''id'', ''subscription-schema'')]
       [Text schemaData]"

text \<open>
  Lines 38 to 72. The head is looked up first; without a head nothing is inserted. The
  first script with the id is removed, and the new script becomes the last child of
  the head. When the head was inside the removed script it left the document with it,
  and so does the new script.
\<close>

definition inject_schema :: "node list \<Rightarrow> node list" where
  "inject_schema ns =
     (case querySelector sel_head ns of
        None \<Rightarrow> ns
      | Some head \<Rightarrow>
          (case querySelector sel_subscription_schema ns of
             None \<Rightarrow> modify_at head (appendChild schemaScript) ns
           | Some existingSchema \<Rightarrow>
               (case relocate existingSchema head of
                  None \<Rightarrow> remove_at existingSchema ns
                | Some head' \<Rightarrow>
                    modify_at head' (appendChild schemaScript)
                      (remove_at existingSchema ns))))"

text \<open>Lines 28 to 35: the document as the injection of lines 38 to 72 finds it.\<close>

definition prepare :: "document \<Rightarrow> document" where
  "prepare d = update_description (set_title document_title d)"

definition metadata_effect :: "document \<Rightarrow> document" where
  "metadata_effect d = inject_schema (prepare d)"

subsection \<open>Documents on which the injector settles\<close>

definition any_element :: selector where
  "any_element t a = True"

text \<open>
  Whether every run leaves exactly one script with the id, decided on the document
  \<open>D\<close> that lines 28 to 35 leave.
  \<^item> \<open>D\<close> has no head element: nothing is inserted or removed, so \<open>D\<close> must hold exactly
    one such script.
  \<^item> \<open>D\<close> has a head element and no such script: the new script is appended.
  \<^item> The first head element is inside the first such script: the run removes the script
    and appends outside the document, so \<open>D\<close> without the script must hold exactly one
    such script, and the question is asked again for that document.
  \<^item> Otherwise the script is replaced by the new one, so no other such script may lie
    outside the first one. The next run sets the title of \<open>D\<close> without the script;
    when that empties a title element around the first head element, head and new
    script are gone, and the question is asked again for that document.
  The first argument bounds the number of times the question is asked again; the
  number of elements of the document is enough, since each of those documents has
  fewer elements.
\<close>

primrec settles_within :: "nat \<Rightarrow> document \<Rightarrow> bool" where
  "settles_within 0 d = False"
| "settles_within (Suc k) d =
     (let D = prepare d
      in case querySelector sel_head D of
           None \<Rightarrow> count_matches sel_subscription_schema D = 1
         | Some h \<Rightarrow>
             (case querySelector sel_subscription_schema D of
                None \<Rightarrow> True
              | Some s \<Rightarrow>
                  (case relocate s h of
                     None \<Rightarrow>
                       count_matches sel_subscription_schema (remove_at s D) = 1
                       \<and> settles_within k (remove_at s D)
                   | Some h' \<Rightarrow>
                       count_matches sel_subscription_schema (remove_at s D) = 0
                       \<and> (case querySelector sel_title (remove_at s D) of
                            None \<Rightarrow> True
                          | Some t \<Rightarrow>
                              prefix t h' \<longrightarrow>
                              settles_within k (set_title document_title (remove_at s D))))))"

definition settles :: "document \<Rightarrow> bool" where
  "settles d = settles_within (Suc (count_matches any_element d)) d"

text \<open>
  The last case without a title element around the head, for a given path of the
  first head element: such a document stays as it is from run to run, up to the
  position of the script.
\<close>

definition head_kept :: "path \<Rightarrow> node list \<Rightarrow> bool" where
  "head_kept h ns \<longleftrightarrow>
     querySelector sel_head ns = Some h
     \<and> (\<forall>t. querySelector sel_title ns = Some t \<longrightarrow> \<not> prefix t h)
     \<and> (\<forall>s. querySelector sel_subscription_schema ns = Some s \<longrightarrow>
            count_matches sel_subscription_schema (remove_at s ns) = 0)
     \<and> (\<forall>s. querySelector sel_subscription_schema ns = Some s \<longrightarrow> \<not> prefix s h)
     \<and> (\<forall>s h' t. querySelector sel_subscription_schema ns = Some s \<longrightarrow>
            relocate s h = Some h' \<longrightarrow>
            querySelector sel_title (remove_at s ns) = Some t \<longrightarrow> \<not> prefix t h')"

text \<open>
  The first case: a document without a head element whose first title element, if any,
  holds only the text that line 28 sets. A run changes nothing but the description.
\<close>

definition headless_bare :: "node list \<Rightarrow> bool" where
  "headless_bare Y \<longleftrightarrow>
     querySelector sel_head Y = None
     \<and> (\<forall>t. querySelector sel_title Y = Some t \<longrightarrow>
            (\<exists>a. node_at t Y = Some (Element ''title'' a (text_children document_title))))"

text \<open>Exactly one script with the id now and after every number of runs.\<close>

definition every_run :: "document \<Rightarrow> bool" where
  "every_run d \<longleftrightarrow>
     (\<forall>n. count_matches sel_subscription_schema ((metadata_effect ^^ n) d) = 1)"

text \<open>
  A change that keeps the children of an element where they are: new attributes, and
  new children after the old ones.
\<close>

fun extend :: "((string \<times> string) list \<Rightarrow> (string \<times> string) list) \<Rightarrow> node list \<Rightarrow> node \<Rightarrow> node" where
  "extend g ex (Element t a cs) = Element t (g a) (cs @ ex)"
| "extend g ex (Text s) = Text s"

subsection \<open>Example documents\<close>

definition page :: document where
  "page =
     [Element ''html'' [(''lang'', ''en'')]
        [Element ''head'' []
           [Element ''meta'' [(''name'', ''description''), (''content'', ''Generate LaTeX'')] [],
            Element ''title'' [] [Text ''AI LaTeX Generator'']],
         Element ''body'' [] [Element ''div'' [(''id'', ''root'')] []]]]"

definition untitled :: document where
  "untitled = [Element ''html'' [] [Element ''head'' [] [], Element ''body'' [] []]]"

definition headless :: document where
  "headless = [Element ''html'' [] [Element ''body'' [] []]]"

definition head_in_title :: document where
  "head_in_title = [Element ''html'' [] [Element ''title'' [] [Element ''head'' [] []]]]"

definition head_in_script :: document where
  "head_in_script =
     [Element ''script'' [(''id'', ''subscription-schema'')] [Element ''head'' [] []]]"

definition head_in_later_title :: document where
  "head_in_later_title =
     [Element ''html'' []
        [Element ''script'' [(''id'', ''subscription-schema'')] [Element ''title'' [] []],
         Element ''title'' [] [Element ''head'' [] []]]]"

definition nested_scripts :: document where
  "nested_scripts =
     [Element ''html'' []
        [Element ''head'' []
           [Element ''script'' [(''id'', ''subscription-schema'')]
              [Element ''script'' [(''id'', ''subscription-schema'')] []]]]]"

definition spare_script :: document where
  "spare_script =
     [Element ''html'' []
        [Element ''script'' [(''id'', ''subscription-schema'')] [Element ''head'' [] []],
         Element ''script'' [(''id'', ''subscription-schema'')] []]]"

definition exposed_head :: document where
  "exposed_head =
     [Element ''html'' []
        [Element ''script'' [(''id'', ''subscription-schema'')] [Element ''title'' [] []],
         Element ''title'' [] [Element ''head'' [] []],
         Element ''head'' [] []]]"

definition twice_tagged :: document where
  "twice_tagged =
     [Element ''html'' []
        [Element ''head'' []
           [Element ''script'' [(''id'', ''subscription-schema'')] [Text ''{}''],
            Element ''script'' [(''id'', ''subscription-schema'')] [Text ''{}'']],
         Element ''body'' [] []]]"

section \<open>Properties of the document operations\<close>

subsection \<open>Counting, looking up and removing\<close>

lemma matches_Cons: "count_matches P (n # ns) = count_matches P [n] + count_matches P ns"
  by (cases n) simp_all

lemma matches_append: "count_matches P (xs @ ys) = count_matches P xs + count_matches P ys"
  by (induction P xs rule: count_matches.induct) simp_all

lemma query_sound:
  "querySelector P ns = Some q \<Longrightarrow> \<exists>t a cs. node_at q ns = Some (Element t a cs) \<and> P t a"
proof (induction P ns arbitrary: q rule: querySelector.induct)
  case (1 P)
  then show ?case by simp
next
  case (2 P s ns)
  then obtain q' where q': "querySelector P ns = Some q'" "q = bump q'" by auto
  from "2.IH"[OF q'(1)] obtain t a cs where n: "node_at q' ns = Some (Element t a cs)" "P t a" by blast
  then obtain i r where "q' = i # r" by (cases q') auto
  with n q' show ?case by auto
next
  case (3 P t a cs ns)
  show ?case
  proof (cases "P t a")
    case True
    with 3 show ?thesis by auto
  next
    case False
    show ?thesis
    proof (cases "querySelector P cs")
      case None
      with False "3.prems" obtain q' where q': "querySelector P ns = Some q'" "q = bump q'" by auto
      from "3.IH"(2)[OF False None q'(1)] obtain t' a' cs' where
        n: "node_at q' ns = Some (Element t' a' cs')" "P t' a'" by blast
      then obtain i r where "q' = i # r" by (cases q') auto
      with n q' show ?thesis by auto
    next
      case (Some q')
      with False "3.prems" have q: "q = 0 # q'" by simp
      from "3.IH"(1)[OF False Some] obtain t' a' cs' where
        n: "node_at q' cs = Some (Element t' a' cs')" "P t' a'" by blast
      then have "q' \<noteq> []" by auto
      with n q show ?thesis by auto
    qed
  qed
qed

lemma query_None_iff: "querySelector P ns = None \<longleftrightarrow> count_matches P ns = 0"
  by (induction P ns rule: querySelector.induct) (auto split: option.splits)

lemma matches_node_at_le: "node_at q ns = Some x \<Longrightarrow> count_matches P [x] \<le> count_matches P ns"
proof (induction q ns rule: node_at.induct)
  case (5 i q n ns)
  then show ?case using matches_Cons[of P n ns] by simp
qed (auto split: if_splits)

lemma matches_remove_at:
  "node_at q ns = Some x \<Longrightarrow> count_matches P (remove_at q ns) + count_matches P [x] = count_matches P ns"
proof (induction q ns rule: remove_at.induct)
  case (5 i q n ns)
  then show ?case using matches_Cons[of P n ns] matches_Cons[of P n "remove_at (i # q) ns"] by simp
qed (auto split: if_splits)

lemma matches_remove_at_le: "count_matches P (remove_at q ns) \<le> count_matches P ns"
proof (induction q ns rule: remove_at.induct)
  case (5 i q n ns)
  then show ?case using matches_Cons[of P n ns] matches_Cons[of P n "remove_at (i # q) ns"] by simp
qed (auto split: if_splits)

lemma matches_modify_at:
  "node_at q ns = Some x \<Longrightarrow>
   count_matches P (modify_at q f ns) + count_matches P [x] = count_matches P ns + count_matches P [f x]"
proof (induction q f ns rule: modify_at.induct)
  case (3 q f s ns)
  then show ?case using matches_Cons[of P "f (Text s)" ns] by (auto split: if_splits)
next
  case (4 q f t a cs ns)
  then show ?case using matches_Cons[of P "f (Element t a cs)" ns] by (auto split: if_splits)
next
  case (5 i q f n ns)
  then show ?case using matches_Cons[of P n ns] matches_Cons[of P n "modify_at (i # q) f ns"] by simp
qed auto

lemma relocate_node_at:
  "node_at h ns = Some (Element t a cs) \<Longrightarrow> node_at s ns = Some x \<Longrightarrow>
   relocate s h = Some h' \<Longrightarrow> \<exists>cs'. node_at h' (remove_at s ns) = Some (Element t a cs')"
proof (induction s ns arbitrary: h h' rule: remove_at.induct)
  case (1 ns)
  then show ?case by simp
next
  case (2 i q)
  then show ?case by simp
next
  case (3 q s ns)
  then show ?case
    by (cases h) (auto split: if_splits nat.splits simp: gr0_conv_Suc)
next
  case (4 q t' a' cs' ns)
  show ?case
  proof (cases h)
    case Nil
    with 4 show ?thesis by simp
  next
    case (Cons j r)
    show ?thesis
    proof (cases "q = []")
      case True
      with 4 Cons show ?thesis
        by (auto split: if_splits simp: gr0_conv_Suc)
    next
      case False
      show ?thesis
      proof (cases j)
        case 0
        show ?thesis
        proof (cases "r = []")
          case True
          from False obtain i' q' where "q = i' # q'" by (cases q) auto
          with 4 Cons 0 True show ?thesis by auto
        next
          case r: False
          from "4.prems" Cons 0 False obtain r' where
            r': "relocate q r = Some r'" "h' = 0 # r'" by auto
          from "4.prems" Cons 0 False r have "node_at r cs' = Some (Element t a cs)"
            "node_at q cs' = Some x" by auto
          from "4.IH"[OF False this r'(1)] obtain cs'' where
            n: "node_at r' (remove_at q cs') = Some (Element t a cs'')" by blast
          then have "r' \<noteq> []" by auto
          with n r' False show ?thesis by auto
        qed
      next
        case (Suc k)
        with 4 Cons False show ?thesis by auto
      qed
    qed
  qed
next
  case (5 i q n ns)
  show ?case
  proof (cases h)
    case Nil
    with 5 show ?thesis by simp
  next
    case (Cons j r)
    show ?thesis
    proof (cases j)
      case 0
      with 5 Cons show ?thesis
        by (cases n) (auto split: if_splits)
    next
      case (Suc k)
      from "5.prems" Cons Suc have a: "node_at (k # r) ns = Some (Element t a cs)"
        "node_at (i # q) ns = Some x" by auto
      from "5.prems"(3) Cons Suc obtain g where
        g: "relocate (i # q) (k # r) = Some g" "h' = bump g"
        by (auto split: if_splits simp: gr0_conv_Suc)
      from "5.IH"[OF a g(1)] obtain cs'' where
        n: "node_at g (remove_at (i # q) ns) = Some (Element t a cs'')" by blast
      then obtain i' r' where "g = i' # r'" by (cases g) auto
      with n g show ?thesis by auto
    qed
  qed
qed

lemma relocate_None: "relocate s h = None \<Longrightarrow> \<exists>r. h = s @ r"
  by (induction s h rule: relocate.induct) (auto split: if_splits)

lemma node_at_append:
  "node_at (s @ r) ns = Some y \<Longrightarrow> node_at s ns = Some (Element t a cs) \<Longrightarrow> r \<noteq> [] \<Longrightarrow>
   node_at r cs = Some y"
  by (induction s ns rule: node_at.induct) (auto split: if_splits)

subsection \<open>Queries after a change\<close>

lemma query_Cons:
  "querySelector P (n # ns) =
     (case querySelector P [n] of Some q \<Rightarrow> Some q | None \<Rightarrow> map_option bump (querySelector P ns))"
  by (cases n) (auto split: option.splits)

lemma query_nonempty: "querySelector P ns = Some q \<Longrightarrow> q \<noteq> []"
  by (auto dest: query_sound)

lemma query_append_none:
  "querySelector P [c] = None \<Longrightarrow> querySelector P (cs @ [c]) = querySelector P cs"
proof (induction P cs rule: querySelector.induct)
  case (1 P)
  then show ?case by simp
next
  case (2 P s ns)
  then show ?case by simp
next
  case (3 P t a cs ns)
  then show ?case by (simp split: option.splits)
qed

lemma query_append_new:
  "querySelector P cs = None \<Longrightarrow> P t a \<Longrightarrow>
   querySelector P (cs @ [Element t a cs']) = Some [length cs]"
proof (induction P cs rule: querySelector.induct)
  case (1 P)
  then show ?case by simp
next
  case (2 P s ns)
  then show ?case by simp
next
  case (3 P t' a' cs'' ns)
  then show ?case by (simp split: option.splits if_splits)
qed

lemma node_at_modify_same:
  "node_at p ns = Some x \<Longrightarrow> node_at p (modify_at p f ns) = Some (f x)"
proof (induction p f ns rule: modify_at.induct)
  case (3 q f s ns)
  then show ?case by (cases "f (Text s)") (auto split: if_splits)
next
  case (4 q f t a cs ns)
  then show ?case by (cases "f (Element t a cs)") (auto split: if_splits)
qed auto

lemma node_at_last: "node_at [length cs] (cs @ [c]) = Some c"
proof (induction cs)
  case Nil
  then show ?case by (cases c) simp_all
next
  case (Cons n cs)
  then show ?case by simp
qed

lemma node_at_appended:
  "node_at p ns = Some (Element t a cs) \<Longrightarrow>
   node_at (p @ [length cs]) (modify_at p (appendChild c) ns) = Some c"
proof (induction p "appendChild c" ns rule: modify_at.induct)
  case (4 q t' a' cs' ns)
  then show ?case by (auto split: if_splits simp: node_at_last)
qed (auto split: if_splits)

lemma query_modify_same:
  "node_at p ns = Some x \<Longrightarrow> querySelector P [f x] = querySelector P [x] \<Longrightarrow>
   querySelector P (modify_at p f ns) = querySelector P ns"
proof (induction p f ns rule: modify_at.induct)
  case (3 q f s ns)
  then show ?case
    using query_Cons[of P "f (Text s)" ns] query_Cons[of P "Text s" ns]
    by (auto split: if_splits)
next
  case (4 q f t a cs ns)
  then show ?case
    using query_Cons[of P "f (Element t a cs)" ns] query_Cons[of P "Element t a cs" ns]
    by (auto split: if_splits)
next
  case (5 i q f n ns)
  then show ?case
    using query_Cons[of P n ns] query_Cons[of P n "modify_at (i # q) f ns"]
    by (simp split: option.splits)
qed auto

lemma query_single_None:
  "node_at p ns = Some x \<Longrightarrow> querySelector P ns = None \<Longrightarrow> querySelector P [x] = None"
  using matches_node_at_le[of p ns x P] by (simp add: query_None_iff)

lemma query_modify_elsewhere:
  "querySelector P ns = Some q \<Longrightarrow> node_at p ns = Some x \<Longrightarrow> \<not> prefix p q \<Longrightarrow>
   querySelector P [f x] = None \<Longrightarrow> querySelector P (modify_at p f ns) = Some q"
proof (induction p f ns arbitrary: q rule: modify_at.induct)
  case (1 f ns)
  then show ?case by simp
next
  case (2 i q' f)
  then show ?case by simp
next
  case (3 q' f s ns)
  then show ?case
    using query_Cons[of P "f (Text s)" ns]
    by (auto split: if_splits)
next
  case (4 q' f t a cs ns)
  show ?case
  proof (cases "q' = []")
    case True
    with "4.prems" have x: "x = Element t a cs" by simp
    from "4.prems"(1,3) True have "querySelector P [Element t a cs] = None"
      by (auto split: if_splits option.splits)
    with "4.prems" True x show ?thesis
      using query_Cons[of P "f (Element t a cs)" ns] query_Cons[of P "Element t a cs" ns]
      by simp
  next
    case False
    with "4.prems" have n: "node_at q' cs = Some x" by simp
    show ?thesis
    proof (cases "P t a")
      case True
      with "4.prems" False show ?thesis by simp
    next
      case nP: False
      show ?thesis
      proof (cases "querySelector P cs")
        case None
        from query_single_None[OF n None] "4.prems"(4)
        have "querySelector P (modify_at q' f cs) = querySelector P cs"
          by (intro query_modify_same[OF n]) simp
        with None nP False "4.prems" show ?thesis by simp
      next
        case (Some r)
        with nP "4.prems" have q: "q = 0 # r" by simp
        with "4.prems"(3) have "\<not> prefix q' r" by simp
        from "4.IH"[OF False Some n this "4.prems"(4)] nP False q show ?thesis by simp
      qed
    qed
  qed
next
  case (5 i q' f n ns)
  show ?case
  proof (cases "querySelector P [n]")
    case None
    with "5.prems" obtain r where r: "querySelector P ns = Some r" "q = bump r"
      using query_Cons[of P n ns] by auto
    then obtain j r' where jr: "r = j # r'" by (cases r) (auto dest: query_nonempty)
    with "5.prems" r have "\<not> prefix (i # q') r" by simp
    from "5.IH"[OF r(1) _ this "5.prems"(4)] "5.prems"(2) None r show ?thesis
      using query_Cons[of P n "modify_at (i # q') f ns"] by simp
  next
    case (Some r)
    with "5.prems" show ?thesis
      using query_Cons[of P n ns] query_Cons[of P n "modify_at (i # q') f ns"] by simp
  qed
qed

lemma query_modify_new:
  "querySelector P ns = None \<Longrightarrow> node_at p ns = Some (Element t a cs) \<Longrightarrow> P t' a' \<Longrightarrow>
   querySelector P (modify_at p (appendChild (Element t' a' cs')) ns) = Some (p @ [length cs])"
proof (induction p "appendChild (Element t' a' cs')" ns rule: modify_at.induct)
  case (1 ns)
  then show ?case by simp
next
  case (2 i q)
  then show ?case by simp
next
  case (3 q s ns)
  then show ?case by (auto split: if_splits)
next
  case (4 q t'' a'' cs'' ns)
  then show ?case
    by (auto split: if_splits option.splits simp: query_append_new)
next
  case (5 i q n ns)
  then show ?case
    using query_Cons[of P n ns]
      query_Cons[of P n "modify_at (i # q) (appendChild (Element t' a' cs')) ns"]
    by (auto split: option.splits)
qed

subsection \<open>References after a removal\<close>

lemma query_remove_None:
  "querySelector P ns = None \<Longrightarrow> querySelector P (remove_at s ns) = None"
  using matches_remove_at_le[of P s ns] by (simp add: query_None_iff)

lemma relocate_prefix: "s \<noteq> [] \<Longrightarrow> prefix s h \<Longrightarrow> relocate s h = None"
  by (induction s h rule: relocate.induct) auto

lemma relocate_Some: "\<not> prefix s h \<Longrightarrow> \<exists>h'. relocate s h = Some h'"
  using relocate_None[of s h] by (cases "relocate s h") auto

lemma relocate_child: "relocate (p @ [k]) p = Some p"
  by (induction p) auto

lemma relocate_nonempty: "relocate s h = Some h' \<Longrightarrow> h \<noteq> [] \<Longrightarrow> h' \<noteq> []"
  by (cases s; cases h) (auto split: if_splits)

lemma remove_at_first: "remove_at [0] (x # ns) = ns"
  by (cases x) simp_all

lemma query_remove:
  "querySelector P ns = Some q \<Longrightarrow> \<not> prefix s q \<Longrightarrow>
   querySelector P (remove_at s ns) = relocate s q"
proof (induction s ns arbitrary: q rule: remove_at.induct)
  case (1 ns)
  then show ?case by simp
next
  case (2 i s)
  then show ?case by simp
next
  case (3 s t ns)
  from "3.prems" obtain r where r: "querySelector P ns = Some r" "q = bump r" by auto
  then obtain j r' where "r = j # r'" by (cases r) (auto dest: query_nonempty)
  with r "3.prems" show ?case by auto
next
  case (4 s t a cs ns)
  show ?case
  proof (cases "s = []")
    case True
    with "4.prems" have "querySelector P [Element t a cs] = None"
      by (auto split: if_splits option.splits)
    with "4.prems" obtain r where r: "querySelector P ns = Some r" "q = bump r"
      using query_Cons[of P "Element t a cs" ns] by (cases "querySelector P ns") auto
    then obtain j r' where "r = j # r'" by (cases r) (auto dest: query_nonempty)
    with r True show ?thesis by simp
  next
    case False
    then obtain i s' where s: "s = i # s'" by (cases s) auto
    show ?thesis
    proof (cases "P t a")
      case True
      with "4.prems" have "q = [0]" by simp
      with True s show ?thesis by simp
    next
      case nP: False
      show ?thesis
      proof (cases "querySelector P cs")
        case None
        with nP "4.prems" obtain r where r: "querySelector P ns = Some r" "q = bump r" by auto
        then obtain j r' where "r = j # r'" by (cases r) (auto dest: query_nonempty)
        with r None nP False show ?thesis
          by (simp add: query_remove_None)
      next
        case (Some r)
        with nP "4.prems" have q: "q = 0 # r" by simp
        with "4.prems" have np: "\<not> prefix s r" by simp
        from relocate_Some[OF np] obtain r' where "relocate s r = Some r'" by blast
        with "4.IH"[OF False Some np] q nP False show ?thesis
          by simp
      qed
    qed
  qed
next
  case (5 i s n ns)
  show ?case
  proof (cases "querySelector P [n]")
    case None
    with "5.prems" obtain r where r: "querySelector P ns = Some r" "q = bump r"
      using query_Cons[of P n ns] by auto
    then obtain j r' where jr: "r = j # r'" by (cases r) (auto dest: query_nonempty)
    with "5.prems" r have np: "\<not> prefix (i # s) r" by simp
    from "5.IH"[OF r(1) np] None r jr np show ?thesis
      using query_Cons[of P n "remove_at (i # s) ns"]
      by (auto split: if_splits simp: gr0_conv_Suc option.map_comp comp_def)
  next
    case (Some r)
    with "5.prems" have q: "q = r" using query_Cons[of P n ns] by simp
    from Some obtain r' where "r = 0 # r'"
      by (cases n) (auto split: if_splits option.splits)
    with Some q show ?thesis
      using query_Cons[of P n "remove_at (i # s) ns"] by simp
  qed
qed

lemma remove_modify_inside:
  "s \<noteq> [] \<Longrightarrow> prefix s p \<Longrightarrow> remove_at s (modify_at p f ns) = remove_at s ns"
proof (induction s ns arbitrary: p rule: remove_at.induct)
  case (1 ns)
  then show ?case by simp
next
  case (2 i s)
  then show ?case by (cases p) auto
next
  case (3 s t ns)
  then show ?case by (cases p) (auto split: if_splits simp: remove_at_first)
next
  case (4 s t a cs ns)
  then show ?case by (cases p) (auto split: if_splits simp: remove_at_first)
next
  case (5 i s n ns)
  then show ?case by (cases p) auto
qed

lemma remove_modify_apart:
  "\<not> prefix s p \<Longrightarrow> \<not> prefix p s \<Longrightarrow> relocate s p = Some p' \<Longrightarrow>
   remove_at s (modify_at p f ns) = modify_at p' f (remove_at s ns)"
proof (induction s ns arbitrary: p p' rule: remove_at.induct)
  case (1 ns)
  then show ?case by simp
next
  case (2 i s)
  then show ?case by (cases p) (auto split: if_splits)
next
  case (3 s t ns)
  then show ?case
    by (cases p) (auto split: if_splits nat.splits simp: gr0_conv_Suc dest: relocate_nonempty)
next
  case (4 s t a cs ns)
  show ?case
  proof (cases p)
    case Nil
    with 4 show ?thesis by simp
  next
    case (Cons j r)
    show ?thesis
    proof (cases j)
      case 0
      with "4.prems" Cons have s: "s \<noteq> []" "r \<noteq> []" by auto
      with "4.prems" Cons 0 obtain r' where r': "relocate s r = Some r'" "p' = 0 # r'"
        by auto
      from "4.prems" Cons 0 have "\<not> prefix s r" "\<not> prefix r s" by auto
      from "4.IH"[OF s(1) this r'(1)] have
        e: "remove_at s (modify_at r f cs) = modify_at r' f (remove_at s cs)" .
      have "r' \<noteq> []" using r'(1) s(2) by (rule relocate_nonempty)
      with e Cons 0 s r' show ?thesis by simp
    next
      case (Suc k)
      with "4.prems" Cons show ?thesis
        by (auto split: if_splits)
    qed
  qed
next
  case (5 i s n ns)
  show ?case
  proof (cases p)
    case Nil
    with 5 show ?thesis by simp
  next
    case (Cons j r)
    show ?thesis
    proof (cases j)
      case 0
      with "5.prems" Cons show ?thesis
        by (cases n) (auto split: if_splits)
    next
      case (Suc k)
      from "5.prems" Cons Suc have np: "\<not> prefix (i # s) (k # r)" "\<not> prefix (k # r) (i # s)"
        by auto
      from "5.prems"(3) Cons Suc obtain g where
        g: "relocate (i # s) (k # r) = Some g" "p' = bump g"
        by (auto split: if_splits simp: gr0_conv_Suc)
      from "5.IH"[OF np g(1)] have
        e: "remove_at (i # s) (modify_at (k # r) f ns) = modify_at g f (remove_at (i # s) ns)" .
      from g(1) obtain k' g' where "g = k' # g'"
        by (cases g) (auto split: if_splits)
      with e g Cons Suc show ?thesis by simp
    qed
  qed
qed

lemma remove_at_append:
  "node_at r cs = Some y \<Longrightarrow> remove_at r (cs @ ex) = remove_at r cs @ ex"
  by (induction r cs rule: remove_at.induct) (auto split: if_splits)

lemma relocate_above: "prefix p s \<Longrightarrow> p \<noteq> s \<Longrightarrow> relocate s p = Some p"
  by (induction s p rule: relocate.induct) auto

lemma remove_modify_above:
  "node_at s ns = Some y \<Longrightarrow> prefix p s \<Longrightarrow> p \<noteq> s \<Longrightarrow>
   remove_at s (modify_at p (extend g ex) ns) = modify_at p (extend g ex) (remove_at s ns)"
proof (induction s ns arbitrary: p rule: remove_at.induct)
  case (1 ns)
  then show ?case by simp
next
  case (2 i s)
  then show ?case by simp
next
  case (3 s t ns)
  then show ?case by (cases p) (auto split: if_splits)
next
  case (4 s t a cs ns)
  show ?case
  proof (cases p)
    case Nil
    then show ?thesis by simp
  next
    case (Cons j r)
    with "4.prems" have j: "j = 0" and r: "prefix r s" "r \<noteq> s" by auto
    then have s: "s \<noteq> []" by auto
    with "4.prems" have n: "node_at s cs = Some y" by simp
    show ?thesis
    proof (cases "r = []")
      case True
      with Cons j s n show ?thesis by (simp add: remove_at_append)
    next
      case False
      with "4.IH"[OF s n r] Cons j s show ?thesis by simp
    qed
  qed
next
  case (5 i s n ns)
  show ?case
  proof (cases p)
    case Nil
    then show ?thesis by simp
  next
    case (Cons j r)
    with "5.prems" have j: "j = Suc i" and r: "prefix (i # r) (i # s)" "i # r \<noteq> i # s" by auto
    from "5.prems" have n: "node_at (i # s) ns = Some y" by simp
    from "5.IH"[OF n r] Cons j show ?thesis by simp
  qed
qed

lemma remove_modify_extend:
  assumes "node_at s ns = Some y" and "\<not> prefix s p" and "relocate s p = Some p'"
  shows "remove_at s (modify_at p (extend g ex) ns) = modify_at p' (extend g ex) (remove_at s ns)"
proof (cases "prefix p s")
  case True
  with assms(2) have "p \<noteq> s" by auto
  with True assms relocate_above[of p s] show ?thesis
    by (simp add: remove_modify_above)
next
  case False
  with assms show ?thesis by (simp add: remove_modify_apart)
qed

lemma setAttribute_extend: "setAttribute k v = extend (AList.update k v) []"
proof
  fix x show "setAttribute k v x = extend (AList.update k v) [] x"
    by (cases x) simp_all
qed

lemma appendChild_extend: "appendChild c = extend id [c]"
proof
  fix x show "appendChild c x = extend id [c] x"
    by (cases x) simp_all
qed

lemma remove_at_last: "remove_at [length cs] (cs @ [c]) = cs"
  by (induction cs) (simp_all add: remove_at_first)

lemma remove_appended:
  "node_at p ns = Some (Element t a cs) \<Longrightarrow>
   remove_at (p @ [length cs]) (modify_at p (appendChild c) ns) = ns"
proof (induction p "appendChild c" ns rule: modify_at.induct)
  case (4 q t' a' cs' ns)
  then show ?case by (auto split: if_splits simp: remove_at_last)
qed (auto split: if_splits)

lemma first_child_sound:
  "first_child P cs = Some j \<Longrightarrow> \<exists>t a cs'. node_at [j] cs = Some (Element t a cs') \<and> P t a"
  by (induction P cs arbitrary: j rule: first_child.induct) (auto split: if_splits)

lemma head_element_sound:
  "head_element ns = Some hp \<Longrightarrow> \<exists>a cs. node_at hp ns = Some (Element ''head'' a cs)"
proof (induction ns arbitrary: hp rule: head_element.induct)
  case 1
  then show ?case by simp
next
  case (2 s ns)
  then obtain hp' where hp': "head_element ns = Some hp'" "hp = bump hp'" by auto
  from "2.IH"[OF hp'(1)] obtain a cs where n: "node_at hp' ns = Some (Element ''head'' a cs)"
    by blast
  then obtain i r where "hp' = i # r" by (cases hp') auto
  with n hp' show ?case by auto
next
  case (3 t a cs ns)
  then obtain j where j: "first_child sel_head cs = Some j" "hp = [0, j]" "t = ''html''"
    by (auto split: if_splits)
  from first_child_sound[OF j(1)] j show ?case by (auto simp: sel_head_def)
qed

lemma no_element_below:
  assumes "node_at p ns = Some (Element t' a' cs')" and "count_matches any_element cs' = 0"
    and "node_at (p @ r) ns = Some (Element t a cs)"
  shows "r = []"
proof (rule ccontr)
  assume "r \<noteq> []"
  from node_at_append[OF assms(3) assms(1) this] have "node_at r cs' = Some (Element t a cs)" .
  from matches_node_at_le[OF this, of any_element] assms(2) show False
    by (simp add: any_element_def)
qed

lemma text_children_any: "count_matches any_element (text_children v) = 0"
  by (simp add: text_children_def)

lemma text_children_query: "querySelector P (text_children v) = None"
  by (simp add: text_children_def)

lemma sel_update:
  "sel_head t (AList.update ''content'' v a) = sel_head t a"
  "sel_title t (AList.update ''content'' v a) = sel_title t a"
  "sel_subscription_schema t (AList.update ''content'' v a) = sel_subscription_schema t a"
  by (simp_all add: sel_head_def sel_title_def sel_subscription_schema_def update_conv')

section \<open>Properties of the steps of the metadata effect\<close>

subsection \<open>Documents that keep their head from run to run\<close>

lemma text_children_count: "count_matches P (text_children v) = 0"
  by (simp add: text_children_def)

lemma head_keptD:
  assumes "head_kept h ns"
  shows "querySelector sel_head ns = Some h"
    and "\<And>t. querySelector sel_title ns = Some t \<Longrightarrow> \<not> prefix t h"
    and "\<And>s. querySelector sel_subscription_schema ns = Some s \<Longrightarrow>
          count_matches sel_subscription_schema (remove_at s ns) = 0"
    and "\<And>s. querySelector sel_subscription_schema ns = Some s \<Longrightarrow> \<not> prefix s h"
    and "\<And>s h' t. querySelector sel_subscription_schema ns = Some s \<Longrightarrow>
          relocate s h = Some h' \<Longrightarrow> querySelector sel_title (remove_at s ns) = Some t \<Longrightarrow>
          \<not> prefix t h'"
  using assms by (auto simp: head_kept_def)

lemma head_kept_replace_title:
  assumes k: "head_kept h ns" and q: "querySelector sel_title ns = Some tp"
  shows "head_kept h (modify_at tp (string_replace_all v) ns)"
proof -
  let ?f = "string_replace_all v"
  let ?T = "modify_at tp ?f ns"
  note g1 = head_keptD(1)[OF k] and g2 = head_keptD(2)[OF k] and g3 = head_keptD(3)[OF k]
    and g4 = head_keptD(4)[OF k] and g5 = head_keptD(5)[OF k]
  from query_sound[OF q] obtain a cs where x: "node_at tp ns = Some (Element ''title'' a cs)"
    by (auto simp: sel_title_def)
  have h1: "querySelector sel_head ?T = Some h"
    by (rule query_modify_elsewhere[OF g1 x g2[OF q]])
       (simp add: sel_head_def text_children_query)
  have t1: "querySelector sel_title ?T = Some tp"
    using query_modify_same[OF x, of sel_title ?f] q by (simp add: sel_title_def)
  have c: "count_matches sel_subscription_schema ?T
      + count_matches sel_subscription_schema cs
      = count_matches sel_subscription_schema ns"
    using matches_modify_at[OF x, of sel_subscription_schema ?f]
    by (simp add: sel_subscription_schema_def text_children_count)
  have same: "querySelector sel_subscription_schema ns = Some s \<and> \<not> prefix tp s"
    if qT: "querySelector sel_subscription_schema ?T = Some s" for s
  proof -
    from qT have nz: "count_matches sel_subscription_schema ?T \<noteq> 0"
      using query_None_iff[of sel_subscription_schema ?T] by simp
    with c have "count_matches sel_subscription_schema ns \<noteq> 0" by simp
    then obtain s0 where s0: "querySelector sel_subscription_schema ns = Some s0"
      using query_None_iff[of sel_subscription_schema ns] by auto
    from query_sound[OF s0] obtain t' a' cs' where
      y: "node_at s0 ns = Some (Element t' a' cs')" "sel_subscription_schema t' a'" by blast
    have all: "count_matches sel_subscription_schema [Element t' a' cs']
        = count_matches sel_subscription_schema ns"
      using matches_remove_at[OF y(1), of sel_subscription_schema] g3[OF s0] by simp
    have np: "\<not> prefix tp s0"
    proof
      assume "prefix tp s0"
      then obtain r where r: "s0 = tp @ r" by (auto simp: prefix_def)
      show False
      proof (cases "r = []")
        case True
        with r x y show False by (simp add: sel_subscription_schema_def)
      next
        case False
        from node_at_append[OF y(1)[unfolded r] x False]
        have "node_at r cs = Some (Element t' a' cs')" .
        from matches_node_at_le[OF this, of sel_subscription_schema] all c nz
        show False by simp
      qed
    qed
    have "querySelector sel_subscription_schema ?T = Some s0"
      by (rule query_modify_elsewhere[OF s0 x np])
         (simp add: sel_subscription_schema_def text_children_query)
    with qT s0 np show ?thesis by simp
  qed
  have rest: "querySelector sel_title (remove_at s ?T) = querySelector sel_title (remove_at s ns)
      \<and> count_matches sel_subscription_schema (remove_at s ?T) = 0"
    if qT: "querySelector sel_subscription_schema ?T = Some s" for s
  proof -
    from same[OF qT] have qs: "querySelector sel_subscription_schema ns = Some s"
      and np: "\<not> prefix tp s" by simp_all
    from query_sound[OF qs] obtain y where y: "node_at s ns = Some y" by blast
    show ?thesis
    proof (cases "prefix s tp")
      case True
      with query_nonempty[OF qs] g3[OF qs] show ?thesis by (simp add: remove_modify_inside)
    next
      case False
      from relocate_Some[OF False] obtain tp' where tp': "relocate s tp = Some tp'" by blast
      from relocate_node_at[OF x y tp'] obtain cs'' where
        x': "node_at tp' (remove_at s ns) = Some (Element ''title'' a cs'')" by blast
      from remove_modify_apart[OF False np tp']
      have e: "remove_at s ?T = modify_at tp' ?f (remove_at s ns)" .
      from matches_modify_at[OF x', of sel_subscription_schema ?f] g3[OF qs]
      have "count_matches sel_subscription_schema (modify_at tp' ?f (remove_at s ns)) = 0"
        by (simp add: sel_subscription_schema_def text_children_count)
      with e query_modify_same[OF x', of sel_title ?f] show ?thesis
        by (simp add: sel_title_def)
    qed
  qed
  from h1 t1 g2[OF q] same rest g4 g5 show ?thesis
    unfolding head_kept_def by (auto dest: same)
qed

lemma head_kept_create_title:
  assumes k: "head_kept h ns" and q: "querySelector sel_title ns = None"
    and he: "head_element ns = Some hp"
  shows "head_kept h (modify_at hp (appendChild (Element ''title'' [] (text_children v))) ns)"
proof -
  let ?nt = "Element ''title'' [] (text_children v)"
  let ?f = "appendChild ?nt"
  let ?T = "modify_at hp ?f ns"
  note g1 = head_keptD(1)[OF k] and g3 = head_keptD(3)[OF k] and g4 = head_keptD(4)[OF k]
  from head_element_sound[OF he] obtain a cs where
    x: "node_at hp ns = Some (Element ''head'' a cs)" by blast
  have h1: "querySelector sel_head ?T = Some h"
    using query_modify_same[OF x, of sel_head ?f] g1 by (simp add: sel_head_def)
  have nts: "querySelector sel_subscription_schema [?nt] = None"
    by (simp add: sel_subscription_schema_def text_children_query)
  have s1: "querySelector sel_subscription_schema ?T = querySelector sel_subscription_schema ns"
    using query_modify_same[OF x, of sel_subscription_schema ?f] query_append_none[OF nts, of cs]
    by (simp add: sel_subscription_schema_def)
  have t1: "querySelector sel_title ?T = Some (hp @ [length cs])"
    by (rule query_modify_new[OF q x]) (simp add: sel_title_def)
  have nt: "node_at (hp @ [length cs]) ?T = Some ?nt"
    by (rule node_at_appended[OF x])
  have g2': "\<not> prefix (hp @ [length cs]) h"
  proof
    assume "prefix (hp @ [length cs]) h"
    then obtain r where r: "h = (hp @ [length cs]) @ r" by (auto simp: prefix_def)
    from query_sound[OF h1] obtain t' a' cs' where
      y: "node_at h ?T = Some (Element t' a' cs')" "sel_head t' a'" by blast
    from no_element_below[OF nt text_children_any y(1)[unfolded r]] have "r = []" .
    with r y nt show False by (simp add: sel_head_def)
  qed
  have rest: "count_matches sel_subscription_schema (remove_at s ?T) = 0
      \<and> (\<forall>h' t. relocate s h = Some h' \<longrightarrow>
            querySelector sel_title (remove_at s ?T) = Some t \<longrightarrow> \<not> prefix t h')"
    if qT: "querySelector sel_subscription_schema ?T = Some s" for s
  proof -
    from qT s1 have qs: "querySelector sel_subscription_schema ns = Some s" by simp
    from query_sound[OF qs] obtain y where y: "node_at s ns = Some y" by blast
    have qn: "querySelector sel_title (remove_at s ns) = None"
      by (rule query_remove_None[OF q])
    show ?thesis
    proof (cases "prefix s hp")
      case True
      with query_nonempty[OF qs] have "remove_at s ?T = remove_at s ns"
        by (simp add: remove_modify_inside)
      with qn g3[OF qs] show ?thesis by simp
    next
      case False
      from relocate_Some[OF False] obtain hp' where hp': "relocate s hp = Some hp'" by blast
      from relocate_node_at[OF x y hp'] obtain cs'' where
        x': "node_at hp' (remove_at s ns) = Some (Element ''head'' a cs'')" by blast
      from remove_modify_extend[OF y False hp', of id "[?nt]"]
      have e: "remove_at s ?T = modify_at hp' ?f (remove_at s ns)"
        by (simp add: appendChild_extend)
      from matches_modify_at[OF x', of sel_subscription_schema ?f] g3[OF qs]
      have z: "count_matches sel_subscription_schema (remove_at s ?T) = 0"
        by (simp add: e matches_append sel_subscription_schema_def text_children_count)
      have "querySelector sel_title (modify_at hp' ?f (remove_at s ns))
          = Some (hp' @ [length cs''])"
        by (rule query_modify_new[OF qn x']) (simp add: sel_title_def)
      with e have t: "querySelector sel_title (remove_at s ?T) = Some (hp' @ [length cs''])"
        by simp
      from node_at_appended[OF x', of ?nt] e
      have nt': "node_at (hp' @ [length cs'']) (remove_at s ?T) = Some ?nt" by simp
      have "\<not> prefix (hp' @ [length cs'']) h'" if rel: "relocate s h = Some h'" for h'
      proof
        assume "prefix (hp' @ [length cs'']) h'"
        then obtain r where r: "h' = (hp' @ [length cs'']) @ r" by (auto simp: prefix_def)
        from query_remove[OF h1 g4[OF qs]] rel
        have "querySelector sel_head (remove_at s ?T) = Some h'" by simp
        from query_sound[OF this] obtain t' a' cs' where
          w: "node_at h' (remove_at s ?T) = Some (Element t' a' cs')" "sel_head t' a'" by blast
        from no_element_below[OF nt' text_children_any w(1)[unfolded r]] have "r = []" .
        with r w nt' show False by (simp add: sel_head_def)
      qed
      with z t show ?thesis by simp
    qed
  qed
  from h1 t1 g2' s1 g4 rest show ?thesis
    unfolding head_kept_def by auto
qed

lemma head_kept_set_title: "head_kept h ns \<Longrightarrow> head_kept h (set_title v ns)"
  unfolding set_title_def
  by (auto split: option.splits intro: head_kept_replace_title head_kept_create_title)

lemma head_kept_set_content:
  assumes k: "head_kept h ns" and q: "querySelector sel_meta_description ns = Some m"
  shows "head_kept h (modify_at m (setAttribute ''content'' v) ns)"
proof -
  let ?g = "setAttribute ''content'' v"
  let ?U = "modify_at m ?g ns"
  note g1 = head_keptD(1)[OF k] and g2 = head_keptD(2)[OF k] and g3 = head_keptD(3)[OF k]
    and g4 = head_keptD(4)[OF k] and g5 = head_keptD(5)[OF k]
  from query_sound[OF q] obtain t a cs where x: "node_at m ns = Some (Element t a cs)"
    by blast
  have h1: "querySelector sel_head ?U = querySelector sel_head ns"
    using query_modify_same[OF x, of sel_head ?g] by (simp add: sel_update)
  have t1: "querySelector sel_title ?U = querySelector sel_title ns"
    using query_modify_same[OF x, of sel_title ?g] by (simp add: sel_update)
  have s1: "querySelector sel_subscription_schema ?U = querySelector sel_subscription_schema ns"
    using query_modify_same[OF x, of sel_subscription_schema ?g] by (simp add: sel_update)
  have rest: "querySelector sel_title (remove_at s ?U) = querySelector sel_title (remove_at s ns)
      \<and> count_matches sel_subscription_schema (remove_at s ?U) = 0"
    if qU: "querySelector sel_subscription_schema ?U = Some s" for s
  proof -
    from qU s1 have qs: "querySelector sel_subscription_schema ns = Some s" by simp
    from query_sound[OF qs] obtain y where y: "node_at s ns = Some y" by blast
    show ?thesis
    proof (cases "prefix s m")
      case True
      with query_nonempty[OF qs] g3[OF qs] show ?thesis by (simp add: remove_modify_inside)
    next
      case False
      from relocate_Some[OF False] obtain m' where m': "relocate s m = Some m'" by blast
      from relocate_node_at[OF x y m'] obtain cs'' where
        x': "node_at m' (remove_at s ns) = Some (Element t a cs'')" by blast
      from remove_modify_extend[OF y False m', of "AList.update ''content'' v" "[]"]
      have e: "remove_at s ?U = modify_at m' ?g (remove_at s ns)"
        by (simp add: setAttribute_extend)
      from matches_modify_at[OF x', of sel_subscription_schema ?g] g3[OF qs]
      have "count_matches sel_subscription_schema (modify_at m' ?g (remove_at s ns)) = 0"
        by (simp add: sel_update)
      with e query_modify_same[OF x', of sel_title ?g] show ?thesis
        by (simp add: sel_update)
    qed
  qed
  from g1 g2 g4 g5 h1 t1 s1 rest show ?thesis
    unfolding head_kept_def by auto
qed

lemma head_kept_update_description:
  "head_kept h ns \<Longrightarrow> head_kept h (update_description ns)"
  unfolding update_description_def
  by (auto split: option.splits intro: head_kept_set_content)

lemma append_schemaScript:
  assumes hX: "querySelector sel_head X = Some h"
    and tX: "\<And>t. querySelector sel_title X = Some t \<Longrightarrow> \<not> prefix t h"
    and zX: "querySelector sel_subscription_schema X = None"
  shows "head_kept h (modify_at h (appendChild schemaScript) X)
    \<and> count_matches sel_subscription_schema (modify_at h (appendChild schemaScript) X) = 1"
proof -
  let ?f = "appendChild schemaScript"
  let ?R = "modify_at h ?f X"
  from query_sound[OF hX] obtain a cs where x: "node_at h X = Some (Element ''head'' a cs)"
    by (auto simp: sel_head_def)
  have ct: "querySelector sel_title [schemaScript] = None"
    by (simp add: schemaScript_def sel_title_def)
  have h1: "querySelector sel_head ?R = Some h"
    using query_modify_same[OF x, of sel_head ?f] hX by (simp add: sel_head_def)
  have t1: "querySelector sel_title ?R = querySelector sel_title X"
    using query_modify_same[OF x, of sel_title ?f] query_append_none[OF ct, of cs]
    by (simp add: sel_title_def)
  have s1: "querySelector sel_subscription_schema ?R = Some (h @ [length cs])"
    unfolding schemaScript_def
    by (rule query_modify_new[OF zX x]) (simp add: sel_subscription_schema_def)
  have c: "count_matches sel_subscription_schema ?R = 1"
    using matches_modify_at[OF x, of sel_subscription_schema ?f] zX
    by (simp add: matches_append query_None_iff schemaScript_def sel_subscription_schema_def)
  have r: "remove_at (h @ [length cs]) ?R = X"
    by (rule remove_appended[OF x])
  have np: "\<not> prefix (h @ [length cs]) h"
    by (auto dest: prefix_length_le)
  from zX have "count_matches sel_subscription_schema X = 0"
    by (simp add: query_None_iff)
  with h1 t1 s1 c r np tX show ?thesis
    unfolding head_kept_def by (auto simp: relocate_child)
qed

lemma head_kept_inject_schema:
  assumes k: "head_kept h ns"
  shows "\<exists>h'. head_kept h' (inject_schema ns)
    \<and> count_matches sel_subscription_schema (inject_schema ns) = 1"
proof -
  note g1 = head_keptD(1)[OF k] and g2 = head_keptD(2)[OF k] and g3 = head_keptD(3)[OF k]
    and g4 = head_keptD(4)[OF k] and g5 = head_keptD(5)[OF k]
  show ?thesis
  proof (cases "querySelector sel_subscription_schema ns")
    case None
    from append_schemaScript[OF g1 g2 None] g1 None show ?thesis
      by (auto simp: inject_schema_def)
  next
    case (Some s)
    from relocate_Some[OF g4[OF Some]] obtain h' where h': "relocate s h = Some h'" by blast
    have hX: "querySelector sel_head (remove_at s ns) = Some h'"
      using query_remove[OF g1 g4[OF Some]] h' by simp
    from g3[OF Some] have zX: "querySelector sel_subscription_schema (remove_at s ns) = None"
      by (simp add: query_None_iff)
    from append_schemaScript[OF hX g5[OF Some h'] zX] g1 Some h' show ?thesis
      by (auto simp: inject_schema_def)
  qed
qed

subsection \<open>The title and the description\<close>

lemma modify_no_elements:
  "count_matches any_element cs = 0 \<Longrightarrow> modify_at q (setAttribute k v) cs = cs"
proof (induction q "setAttribute k v" cs rule: modify_at.induct)
  case (5 i q n ns)
  then show ?case using matches_Cons[of any_element n ns] by simp
qed (auto simp: any_element_def)

lemma bare_modify:
  "node_at p ns = Some (Element t a cs) \<Longrightarrow> count_matches any_element cs = 0 \<Longrightarrow>
   \<exists>a'. node_at p (modify_at m (setAttribute k v) ns) = Some (Element t a' cs)"
proof (induction m "setAttribute k v" ns arbitrary: p rule: modify_at.induct)
  case (1 ns)
  then show ?case by simp
next
  case 2
  then show ?case by (cases p) auto
next
  case (3 q s ns)
  then show ?case by (cases p) (auto split: if_splits)
next
  case (4 q t' a' cs' ns)
  show ?case
  proof (cases p)
    case Nil
    with 4 show ?thesis by simp
  next
    case (Cons j r)
    show ?thesis
    proof (cases j)
      case 0
      show ?thesis
      proof (cases "q = []")
        case True
        with "4.prems" Cons 0 show ?thesis by (auto split: if_splits)
      next
        case False
        show ?thesis
        proof (cases "r = []")
          case True
          with "4.prems" Cons 0 False show ?thesis by (simp add: modify_no_elements)
        next
          case r: False
          with "4.prems" Cons 0 have "node_at r cs' = Some (Element t a cs)" by simp
          from "4.hyps"[OF False this "4.prems"(2)] Cons 0 False r show ?thesis by simp
        qed
      qed
    next
      case (Suc j')
      with "4.prems" Cons show ?thesis by (auto split: if_splits)
    qed
  qed
next
  case (5 i q n ns)
  show ?case
  proof (cases p)
    case Nil
    with 5 show ?thesis by simp
  next
    case (Cons j r)
    show ?thesis
    proof (cases j)
      case 0
      with "5.prems" Cons show ?thesis by (cases n) (auto split: if_splits)
    next
      case (Suc j')
      with "5.prems" Cons have "node_at (j' # r) ns = Some (Element t a cs)" by simp
      from "5.hyps"[OF this "5.prems"(2)] Cons Suc show ?thesis by simp
    qed
  qed
qed

lemma set_title_first_title:
  assumes "querySelector sel_title (set_title v d) = Some t"
  shows "\<exists>a. node_at t (set_title v d) = Some (Element ''title'' a (text_children v))"
proof (cases "querySelector sel_title d")
  case (Some tp)
  from query_sound[OF Some] obtain a cs where x: "node_at tp d = Some (Element ''title'' a cs)"
    by (auto simp: sel_title_def)
  from query_modify_same[OF x, of sel_title "string_replace_all v"] Some assms
  have "t = tp" by (simp add: set_title_def sel_title_def)
  with node_at_modify_same[OF x, of "string_replace_all v"] Some show ?thesis
    by (simp add: set_title_def)
next
  case None
  show ?thesis
  proof (cases "head_element d")
    case n: None
    with None assms show ?thesis by (simp add: set_title_def)
  next
    case (Some hp)
    from head_element_sound[OF Some] obtain a cs where
      x: "node_at hp d = Some (Element ''head'' a cs)" by blast
    have "querySelector sel_title
        (modify_at hp (appendChild (Element ''title'' [] (text_children v))) d)
        = Some (hp @ [length cs])"
      by (rule query_modify_new[OF None x]) (simp add: sel_title_def)
    with assms None Some have "t = hp @ [length cs]" by (simp add: set_title_def)
    with node_at_appended[OF x, of "Element ''title'' [] (text_children v)"] None Some
    show ?thesis by (simp add: set_title_def)
  qed
qed

lemma update_description_query:
  assumes "\<And>t a v. P t (AList.update ''content'' v a) = P t a"
  shows "querySelector P (update_description ns) = querySelector P ns"
proof (cases "querySelector sel_meta_description ns")
  case None
  then show ?thesis by (simp add: update_description_def)
next
  case (Some m)
  from query_sound[OF Some] obtain t a cs where x: "node_at m ns = Some (Element t a cs)"
    by blast
  from query_modify_same[OF x, of P] assms Some show ?thesis
    by (simp add: update_description_def)
qed

lemma update_description_count:
  assumes "\<And>t a v. P t (AList.update ''content'' v a) = P t a"
  shows "count_matches P (update_description ns) = count_matches P ns"
proof (cases "querySelector sel_meta_description ns")
  case None
  then show ?thesis by (simp add: update_description_def)
next
  case (Some m)
  from query_sound[OF Some] obtain t a cs where x: "node_at m ns = Some (Element t a cs)"
    by blast
  from matches_modify_at[OF x, of P "setAttribute ''content'' v" for v] assms Some show ?thesis
    by (simp add: update_description_def)
qed

lemma update_description_bare:
  assumes "node_at p ns = Some (Element t a cs)" and "count_matches any_element cs = 0"
  shows "\<exists>a'. node_at p (update_description ns) = Some (Element t a' cs)"
  using assms bare_modify[OF assms]
  by (auto simp: update_description_def split: option.splits)

lemma prepare_query:
  "querySelector sel_head (prepare d) = querySelector sel_head (set_title document_title d)"
  "querySelector sel_title (prepare d) = querySelector sel_title (set_title document_title d)"
  "querySelector sel_subscription_schema (prepare d)
     = querySelector sel_subscription_schema (set_title document_title d)"
  unfolding prepare_def by (rule update_description_query, simp add: sel_update)+

lemma prepare_first_title:
  assumes "querySelector sel_title (prepare d) = Some t"
  shows "\<exists>a. node_at t (prepare d) = Some (Element ''title'' a (text_children document_title))"
proof -
  from assms have "querySelector sel_title (set_title document_title d) = Some t"
    by (simp add: prepare_query)
  from set_title_first_title[OF this] obtain a where
    "node_at t (set_title document_title d)
       = Some (Element ''title'' a (text_children document_title))" by blast
  from update_description_bare[OF this text_children_any] show ?thesis
    by (simp add: prepare_def)
qed

lemma prepare_keeps_heads:
  assumes "querySelector sel_title (prepare d) = Some t"
    and "querySelector sel_head (prepare d) = Some h"
  shows "\<not> prefix t h"
proof
  assume "prefix t h"
  then obtain r where r: "h = t @ r" by (auto simp: prefix_def)
  from prepare_first_title[OF assms(1)] obtain a where
    x: "node_at t (prepare d) = Some (Element ''title'' a (text_children document_title))"
    by blast
  from query_sound[OF assms(2)] obtain t' a' cs' where
    y: "node_at h (prepare d) = Some (Element t' a' cs')" "sel_head t' a'" by blast
  from no_element_below[OF x text_children_any y(1)[unfolded r]] have "r = []" .
  with r x y show False by (simp add: sel_head_def)
qed

lemma modify_at_id: "node_at p ns = Some x \<Longrightarrow> f x = x \<Longrightarrow> modify_at p f ns = ns"
  by (induction p f ns rule: modify_at.induct) (auto split: if_splits)

lemma set_title_idem: "set_title v (set_title v d) = set_title v d"
proof (cases "querySelector sel_title (set_title v d)")
  case None
  show ?thesis
  proof (cases "querySelector sel_title d")
    case n: None
    show ?thesis
    proof (cases "head_element d")
      case None
      with n show ?thesis by (simp add: set_title_def)
    next
      case (Some hp)
      from head_element_sound[OF Some] obtain a cs where
        x: "node_at hp d = Some (Element ''head'' a cs)" by blast
      have "querySelector sel_title
          (modify_at hp (appendChild (Element ''title'' [] (text_children v))) d)
          = Some (hp @ [length cs])"
        by (rule query_modify_new[OF n x]) (simp add: sel_title_def)
      with None n Some show ?thesis by (simp add: set_title_def)
    qed
  next
    case (Some tp)
    from query_sound[OF Some] obtain a cs where x: "node_at tp d = Some (Element ''title'' a cs)"
      by (auto simp: sel_title_def)
    from query_modify_same[OF x, of sel_title "string_replace_all v"] Some None
    show ?thesis by (simp add: set_title_def sel_title_def)
  qed
next
  case (Some t)
  from set_title_first_title[OF Some] obtain a where
    x: "node_at t (set_title v d) = Some (Element ''title'' a (text_children v))" by blast
  have "modify_at t (string_replace_all v) (set_title v d) = set_title v d"
    by (rule modify_at_id[OF x]) simp
  with Some show ?thesis by (simp add: set_title_def[of v "set_title v d"])
qed

lemma replace_modify_inside:
  "prefix t p \<Longrightarrow> t \<noteq> p \<Longrightarrow> t \<noteq> [] \<Longrightarrow>
   modify_at t (string_replace_all v) (modify_at p g ns) = modify_at t (string_replace_all v) ns"
proof (induction t "string_replace_all v" ns arbitrary: p rule: modify_at.induct)
  case (1 ns)
  then show ?case by simp
next
  case (2 i q)
  then show ?case by (cases p) auto
next
  case (3 q s ns)
  then show ?case by (cases p) (auto split: if_splits)
next
  case (4 q t' a' cs' ns)
  then show ?case by (cases p) (auto split: if_splits)
next
  case (5 i q n ns)
  then show ?case by (cases p) auto
qed

lemma any_update: "count_matches any_element (update_description ns) = count_matches any_element ns"
  by (rule update_description_count) (simp add: any_element_def)

lemma any_set_title:
  "count_matches any_element (set_title v ns) \<le> Suc (count_matches any_element ns)"
proof (cases "querySelector sel_title ns")
  case None
  show ?thesis
  proof (cases "head_element ns")
    case n: None
    with None show ?thesis by (simp add: set_title_def)
  next
    case (Some hp)
    from head_element_sound[OF Some] obtain a cs where
      x: "node_at hp ns = Some (Element ''head'' a cs)" by blast
    from matches_modify_at[OF x, of any_element
        "appendChild (Element ''title'' [] (text_children v))"] None Some
    show ?thesis
      by (simp add: set_title_def matches_append any_element_def text_children_count)
  qed
next
  case (Some tp)
  from query_sound[OF Some] obtain t a cs where x: "node_at tp ns = Some (Element t a cs)"
    by blast
  from matches_modify_at[OF x, of any_element "string_replace_all v"] Some show ?thesis
    by (simp add: set_title_def any_element_def text_children_count)
qed

lemma any_prepare: "count_matches any_element (prepare d) \<le> Suc (count_matches any_element d)"
  by (simp add: prepare_def any_update any_set_title)

subsection \<open>Runs of the effect\<close>

lemma every_run_step:
  "every_run d \<longleftrightarrow> count_matches sel_subscription_schema d = 1 \<and> every_run (metadata_effect d)"
proof
  assume a: "every_run d"
  then have "count_matches sel_subscription_schema ((metadata_effect ^^ 0) d) = 1"
    unfolding every_run_def by blast
  moreover have "count_matches sel_subscription_schema ((metadata_effect ^^ n) (metadata_effect d)) = 1"
    for n
    using a[unfolded every_run_def, rule_format, of "Suc n"] by (simp add: funpow_swap1)
  ultimately show "count_matches sel_subscription_schema d = 1 \<and> every_run (metadata_effect d)"
    by (simp add: every_run_def)
next
  assume a: "count_matches sel_subscription_schema d = 1 \<and> every_run (metadata_effect d)"
  show "every_run d"
    unfolding every_run_def
  proof
    fix n
    show "count_matches sel_subscription_schema ((metadata_effect ^^ n) d) = 1"
    proof (cases n)
      case 0
      with a show ?thesis by simp
    next
      case (Suc m)
      with a[unfolded every_run_def] show ?thesis by (simp add: funpow_swap1)
    qed
  qed
qed

lemma runs_from_one:
  "(\<forall>n. 1 \<le> n \<longrightarrow> count_matches sel_subscription_schema ((metadata_effect ^^ n) d) = 1)
   \<longleftrightarrow> every_run (metadata_effect d)"
proof
  assume a: "\<forall>n. 1 \<le> n \<longrightarrow> count_matches sel_subscription_schema ((metadata_effect ^^ n) d) = 1"
  show "every_run (metadata_effect d)"
    unfolding every_run_def
  proof
    fix n
    from a[rule_format, of "Suc n"]
    have "count_matches sel_subscription_schema ((metadata_effect ^^ Suc n) d) = 1"
      by simp
    then show "count_matches sel_subscription_schema ((metadata_effect ^^ n) (metadata_effect d)) = 1"
      by (simp add: funpow_swap1)
  qed
next
  assume a: "every_run (metadata_effect d)"
  show "\<forall>n. 1 \<le> n \<longrightarrow> count_matches sel_subscription_schema ((metadata_effect ^^ n) d) = 1"
  proof (intro allI impI)
    fix n :: nat
    assume "1 \<le> n"
    then obtain m where "n = Suc m" by (cases n) auto
    with a[unfolded every_run_def] show
      "count_matches sel_subscription_schema ((metadata_effect ^^ n) d) = 1"
      by (simp add: funpow_swap1)
  qed
qed

lemma head_kept_prepare: "head_kept h ns \<Longrightarrow> head_kept h (prepare ns)"
  by (simp add: prepare_def head_kept_set_title head_kept_update_description)

lemma head_kept_funpow:
  "head_kept h Y \<Longrightarrow> count_matches sel_subscription_schema Y = 1 \<Longrightarrow>
   count_matches sel_subscription_schema ((metadata_effect ^^ n) Y) = 1"
proof (induction n arbitrary: h Y)
  case 0
  then show ?case by simp
next
  case (Suc n)
  from head_kept_inject_schema[OF head_kept_prepare[OF Suc.prems(1)]] obtain h' where
    "head_kept h' (metadata_effect Y)"
    "count_matches sel_subscription_schema (metadata_effect Y) = 1"
    by (auto simp: metadata_effect_def)
  from Suc.IH[OF this] show ?case by (simp add: funpow_swap1)
qed

lemma head_kept_every_run:
  "head_kept h Y \<Longrightarrow> count_matches sel_subscription_schema Y = 1 \<Longrightarrow> every_run Y"
  by (simp add: every_run_def head_kept_funpow)

lemma head_kept_runs:
  assumes "head_kept h D"
  shows "every_run (inject_schema D)"
proof -
  from head_kept_inject_schema[OF assms] obtain h' where
    "head_kept h' (inject_schema D)"
    "count_matches sel_subscription_schema (inject_schema D) = 1" by blast
  then show ?thesis by (rule head_kept_every_run)
qed

lemma head_element_query:
  assumes "head_element ns = Some hp"
  shows "querySelector sel_head ns \<noteq> None"
proof -
  from head_element_sound[OF assms] obtain a cs where
    x: "node_at hp ns = Some (Element ''head'' a cs)" by blast
  from matches_node_at_le[OF x, of sel_head] show ?thesis
    by (simp add: query_None_iff sel_head_def)
qed

lemma headless_bare_effect:
  assumes "headless_bare Y"
  shows "metadata_effect Y = update_description Y"
proof -
  from assms have h: "querySelector sel_head Y = None" by (simp add: headless_bare_def)
  have s: "set_title document_title Y = Y"
  proof (cases "querySelector sel_title Y")
    case None
    from h head_element_query[of Y] have "head_element Y = None" by (cases "head_element Y") auto
    with None show ?thesis by (simp add: set_title_def)
  next
    case (Some t)
    with assms obtain a where
      x: "node_at t Y = Some (Element ''title'' a (text_children document_title))"
      by (auto simp: headless_bare_def)
    have "modify_at t (string_replace_all document_title) Y = Y"
      by (rule modify_at_id[OF x]) simp
    with Some show ?thesis by (simp add: set_title_def)
  qed
  from h have "querySelector sel_head (update_description Y) = None"
    by (simp add: update_description_query sel_update)
  with s show ?thesis by (simp add: metadata_effect_def prepare_def inject_schema_def)
qed

lemma headless_bare_update: "headless_bare Y \<Longrightarrow> headless_bare (update_description Y)"
  unfolding headless_bare_def
  using update_description_bare[OF _ text_children_any, of _ Y]
  by (auto simp: update_description_query sel_update)

lemma headless_bare_funpow:
  "headless_bare Y \<Longrightarrow>
   count_matches sel_subscription_schema ((metadata_effect ^^ n) Y)
     = count_matches sel_subscription_schema Y"
proof (induction n arbitrary: Y)
  case 0
  then show ?case by simp
next
  case (Suc n)
  from Suc.IH[OF headless_bare_update[OF Suc.prems]] headless_bare_effect[OF Suc.prems]
  show ?case by (simp add: funpow_swap1 update_description_count sel_update)
qed

lemma headless_prepare:
  assumes "querySelector sel_head (prepare d) = None"
  shows "metadata_effect d = prepare d" and "headless_bare (prepare d)"
  using assms prepare_first_title[of d]
  by (auto simp: metadata_effect_def inject_schema_def headless_bare_def)

lemma headless_runs:
  assumes "querySelector sel_head (prepare d) = None"
  shows "every_run (metadata_effect d) \<longleftrightarrow> count_matches sel_subscription_schema (prepare d) = 1"
  using headless_prepare[OF assms]
  by (simp add: every_run_def headless_bare_funpow)

subsection \<open>The cases of the injection\<close>

lemma any_single: "count_matches any_element [Element t a cs] = Suc (count_matches any_element cs)"
  by (simp add: any_element_def)

lemma fresh_runs:
  assumes h: "querySelector sel_head (prepare d) = Some h"
    and z: "querySelector sel_subscription_schema (prepare d) = None"
  shows "every_run (metadata_effect d)"
proof -
  from append_schemaScript[OF h prepare_keeps_heads[OF _ h] z]
  have "head_kept h (modify_at h (appendChild schemaScript) (prepare d))"
    and "count_matches sel_subscription_schema
           (modify_at h (appendChild schemaScript) (prepare d)) = 1" by simp_all
  from head_kept_every_run[OF this] h z show ?thesis
    by (simp add: metadata_effect_def inject_schema_def)
qed

lemma detached_effect:
  assumes h: "querySelector sel_head D = Some h"
    and s: "querySelector sel_subscription_schema D = Some s"
    and r: "relocate s h = None"
  shows "inject_schema D = remove_at s D"
    and "count_matches any_element (remove_at s D) + 2 \<le> count_matches any_element D"
proof -
  from h s r show "inject_schema D = remove_at s D" by (simp add: inject_schema_def)
  from relocate_None[OF r] obtain q where q: "h = s @ q" by blast
  from query_sound[OF s] obtain a cs where x: "node_at s D = Some (Element ''script'' a cs)"
    by (auto simp: sel_subscription_schema_def)
  from query_sound[OF h] obtain a' cs' where y: "node_at h D = Some (Element ''head'' a' cs')"
    by (auto simp: sel_head_def)
  from q x y have "q \<noteq> []" by auto
  from node_at_append[OF y[unfolded q] x this]
  have "node_at q cs = Some (Element ''head'' a' cs')" .
  from matches_node_at_le[OF this, of any_element]
  have "1 \<le> count_matches any_element cs" by (simp add: any_element_def)
  with matches_remove_at[OF x, of any_element]
  show "count_matches any_element (remove_at s D) + 2 \<le> count_matches any_element D"
    by (simp add: any_element_def)
qed

lemma attached_effect:
  assumes h: "querySelector sel_head D = Some h"
    and s: "querySelector sel_subscription_schema D = Some s"
    and r: "relocate s h = Some h'"
  shows "inject_schema D = modify_at h' (appendChild schemaScript) (remove_at s D)"
    and "\<not> prefix s h"
    and "querySelector sel_head (remove_at s D) = Some h'"
    and "count_matches sel_subscription_schema (inject_schema D)
           = Suc (count_matches sel_subscription_schema (remove_at s D))"
    and "count_matches any_element (remove_at s D) < count_matches any_element D"
proof -
  from h s r show e: "inject_schema D = modify_at h' (appendChild schemaScript) (remove_at s D)"
    by (simp add: inject_schema_def)
  from relocate_prefix[OF query_nonempty[OF s], of h] r show np: "\<not> prefix s h" by auto
  from query_remove[OF h np] r show hX: "querySelector sel_head (remove_at s D) = Some h'"
    by simp
  from query_sound[OF hX] obtain a cs where
    x: "node_at h' (remove_at s D) = Some (Element ''head'' a cs)"
    by (auto simp: sel_head_def)
  from matches_modify_at[OF x, of sel_subscription_schema "appendChild schemaScript"]
  show "count_matches sel_subscription_schema (inject_schema D)
           = Suc (count_matches sel_subscription_schema (remove_at s D))"
    by (simp add: e matches_append schemaScript_def sel_subscription_schema_def)
  from query_sound[OF s] obtain t' a' cs' where y: "node_at s D = Some (Element t' a' cs')"
    by blast
  from matches_remove_at[OF y, of any_element]
  show "count_matches any_element (remove_at s D) < count_matches any_element D"
    by (simp add: any_element_def)
qed

lemma attached_kept:
  assumes h: "querySelector sel_head (prepare d) = Some h"
    and s: "querySelector sel_subscription_schema (prepare d) = Some s"
    and r: "relocate s h = Some h'"
    and c: "count_matches sel_subscription_schema (remove_at s (prepare d)) = 0"
    and t: "\<And>t. querySelector sel_title (remove_at s (prepare d)) = Some t \<Longrightarrow> \<not> prefix t h'"
  shows "head_kept h (prepare d)"
  unfolding head_kept_def
  using h s r c t attached_effect(2)[OF h s r] prepare_keeps_heads[OF _ h]
  by auto

lemma exposed_effect:
  assumes h: "querySelector sel_head D = Some h"
    and s: "querySelector sel_subscription_schema D = Some s"
    and r: "relocate s h = Some h'"
    and t: "querySelector sel_title (remove_at s D) = Some t"
    and p: "prefix t h'"
  shows "set_title v (inject_schema D) = set_title v (remove_at s D)"
    and "count_matches any_element (set_title v (remove_at s D)) + 2
           \<le> count_matches any_element D"
proof -
  let ?X = "remove_at s D"
  let ?g = "appendChild schemaScript"
  note e = attached_effect(1)[OF h s r] and hX = attached_effect(3)[OF h s r]
  from query_sound[OF hX] obtain a cs where x: "node_at h' ?X = Some (Element ''head'' a cs)"
    by (auto simp: sel_head_def)
  from query_sound[OF t] obtain a' cs' where y: "node_at t ?X = Some (Element ''title'' a' cs')"
    by (auto simp: sel_title_def)
  from x y have ne: "t \<noteq> h'" by auto
  have ct: "querySelector sel_title [schemaScript] = None"
    by (simp add: schemaScript_def sel_title_def)
  have t1: "querySelector sel_title (modify_at h' ?g ?X) = Some t"
    using query_modify_same[OF x, of sel_title ?g] query_append_none[OF ct, of cs] t
    by (simp add: sel_title_def)
  from replace_modify_inside[OF p ne query_nonempty[OF t], of v ?g ?X] t t1
  show "set_title v (inject_schema D) = set_title v ?X"
    by (simp add: e set_title_def)
  from p obtain q where q: "h' = t @ q" by (auto simp: prefix_def)
  with ne have "q \<noteq> []" by auto
  from node_at_append[OF x[unfolded q] y this]
  have "node_at q cs' = Some (Element ''head'' a cs)" .
  from matches_node_at_le[OF this, of any_element]
  have 1: "1 \<le> count_matches any_element cs'" by (simp add: any_element_def)
  from matches_modify_at[OF y, of any_element "string_replace_all v"] t
  have 2: "count_matches any_element (set_title v ?X) + count_matches any_element cs'
      = count_matches any_element ?X"
    by (simp add: set_title_def any_element_def text_children_count)
  from 1 2 attached_effect(5)[OF h s r]
  show "count_matches any_element (set_title v ?X) + 2 \<le> count_matches any_element D"
    by simp
qed

lemma exposed_runs:
  assumes h: "querySelector sel_head (prepare d) = Some h"
    and s: "querySelector sel_subscription_schema (prepare d) = Some s"
    and r: "relocate s h = Some h'"
    and t: "querySelector sel_title (remove_at s (prepare d)) = Some t"
    and p: "prefix t h'"
  shows "metadata_effect (metadata_effect d)
    = metadata_effect (set_title document_title (remove_at s (prepare d)))"
  using exposed_effect(1)[OF h s r t p, of document_title]
  by (simp add: metadata_effect_def[of "inject_schema (prepare d)"]
      metadata_effect_def[of "set_title document_title (remove_at s (prepare d))"]
      metadata_effect_def[of d] prepare_def[of "inject_schema (prepare d)"]
      prepare_def[of "set_title document_title (remove_at s (prepare d))"] set_title_idem)

lemma settles_within_runs:
  "count_matches any_element d < k \<Longrightarrow>
   settles_within k d \<longleftrightarrow> every_run (metadata_effect d)"
proof (induction k arbitrary: d)
  case 0
  then show ?case by simp
next
  case (Suc k)
  let ?D = "prepare d"
  from Suc.prems any_prepare[of d] have fuel: "count_matches any_element ?D \<le> Suc k" by simp
  show ?case
  proof (cases "querySelector sel_head ?D")
    case None
    with headless_runs[OF None] show ?thesis by (simp add: Let_def)
  next
    case h: (Some h)
    show ?thesis
    proof (cases "querySelector sel_subscription_schema ?D")
      case None
      with h fresh_runs[OF h None] show ?thesis by (simp add: Let_def)
    next
      case s: (Some s)
      show ?thesis
      proof (cases "relocate s h")
        case None
        note d = detached_effect[OF h s None]
        from d(2) fuel have "count_matches any_element (remove_at s ?D) < k" by simp
        from Suc.IH[OF this] h s None d(1)
          every_run_step[of "metadata_effect d"]
        show ?thesis by (simp add: metadata_effect_def[of d] Let_def)
      next
        case r: (Some h')
        let ?X = "remove_at s ?D"
        note a = attached_effect[OF h s r]
        show ?thesis
        proof (cases "count_matches sel_subscription_schema ?X = 0")
          case False
          with a(4) every_run_step[of "metadata_effect d"] h s r show ?thesis
            by (simp add: metadata_effect_def[of d] Let_def)
        next
          case c: True
          show ?thesis
          proof (cases "\<exists>t. querySelector sel_title ?X = Some t \<and> prefix t h'")
            case False
            then have "\<And>t. querySelector sel_title ?X = Some t \<Longrightarrow> \<not> prefix t h'" by blast
            from head_kept_runs[OF attached_kept[OF h s r c this]] False h s r c
            show ?thesis
              by (auto simp: metadata_effect_def[of d] Let_def split: option.splits)
          next
            case True
            then obtain t where t: "querySelector sel_title ?X = Some t" and p: "prefix t h'"
              by blast
            let ?Y = "set_title document_title ?X"
            from exposed_effect(2)[OF h s r t p, of document_title] fuel
            have "count_matches any_element ?Y < k" by simp
            from Suc.IH[OF this] have "settles_within k ?Y \<longleftrightarrow> every_run (metadata_effect ?Y)" .
            moreover from a(4) c have "count_matches sel_subscription_schema (metadata_effect d) = 1"
              by (simp add: metadata_effect_def[of d])
            ultimately show ?thesis
              using h s r c t p exposed_runs[OF h s r t p]
                every_run_step[of "metadata_effect d"]
              by (simp add: Let_def)
          qed
        qed
      qed
    qed
  qed
qed

section \<open>Properties of the metadata effect\<close>

text \<open>
  C8, as stated, fails. In a document without a head element the injector inserts
  nothing (line 39), so no script with the id is in the document after any number of
  runs. Setting the title (line 28) empties the first title element, so a head that
  lies inside it has left the document before line 38 looks for one. When the head
  lies inside the script with the id, the head leaves the document with that script
  and the new script is appended outside the document. Only the first script with the
  id is removed (lines 40 to 43), so a document that holds two of them still holds two
  after every run. And a run can leave one script and the next run none: the first run
  removes a script with the title element in it, and the second run empties the next
  title element, which holds the head with the script of the first run.
\<close>

theorem injection_counterexample:
  "count_matches sel_subscription_schema ((metadata_effect ^^ 1) headless) = 0
   \<and> count_matches sel_subscription_schema ((metadata_effect ^^ 2) headless) = 0
   \<and> count_matches sel_subscription_schema ((metadata_effect ^^ 1) head_in_title) = 0
   \<and> count_matches sel_subscription_schema ((metadata_effect ^^ 1) head_in_script) = 0
   \<and> count_matches sel_subscription_schema ((metadata_effect ^^ 1) twice_tagged) = 2
   \<and> count_matches sel_subscription_schema ((metadata_effect ^^ 2) twice_tagged) = 2
   \<and> count_matches sel_subscription_schema ((metadata_effect ^^ 1) head_in_later_title) = 1
   \<and> count_matches sel_subscription_schema ((metadata_effect ^^ 2) head_in_later_title) = 0"
  by (simp add: headless_def head_in_title_def head_in_script_def twice_tagged_def
      head_in_later_title_def numeral_2_eq_2 metadata_effect_def prepare_def
      document_title_def inject_schema_def update_description_def set_title_def
      text_children_def schemaScript_def sel_head_def sel_title_def
      sel_subscription_schema_def sel_meta_description_def)

text \<open>
  C8, amended: running the injector any number of times (at least once) leaves exactly
  one script element with the id \<open>subscription-schema\<close> in the document if and only if
  the injector settles on the document. With \<open>D\<close> the document as lines 28 to 35 leave
  it, that is one of:
  \<^item> \<open>D\<close> has no head element and holds exactly one script with the id;
  \<^item> \<open>D\<close> has a head element and no script with the id;
  \<^item> the first head element of \<open>D\<close> is inside its first script with the id, and \<open>D\<close>
    without that script holds exactly one script with the id and is a document on
    which the injector settles;
  \<^item> the first head element of \<open>D\<close> is outside its first script with the id, \<open>D\<close>
    without that script holds no script with the id, and either the first title
    element of \<open>D\<close> without that script, if there is one, does not have that head
    inside it, or \<open>D\<close> without that script and with the title set is a document on
    which the injector settles.
\<close>

theorem one_schema_node:
  "settles d \<longleftrightarrow>
   (\<forall>n. 1 \<le> n \<longrightarrow> count_matches sel_subscription_schema ((metadata_effect ^^ n) d) = 1)"
  unfolding settles_def runs_from_one
  by (rule settles_within_runs) simp

theorem one_schema_node_witness:
  "settles page \<and> settles untitled \<and> settles nested_scripts
   \<and> settles exposed_head \<and> settles spare_script
   \<and> count_matches sel_subscription_schema ((metadata_effect ^^ 1) page) = 1
   \<and> count_matches sel_subscription_schema ((metadata_effect ^^ 2) page) = 1
   \<and> count_matches sel_subscription_schema ((metadata_effect ^^ 1) untitled) = 1
   \<and> count_matches sel_subscription_schema ((metadata_effect ^^ 2) nested_scripts) = 1
   \<and> count_matches sel_subscription_schema ((metadata_effect ^^ 1) exposed_head) = 1
   \<and> count_matches sel_subscription_schema ((metadata_effect ^^ 2) exposed_head) = 1
   \<and> count_matches sel_subscription_schema ((metadata_effect ^^ 3) spare_script) = 1"
proof -
  have a: "settles page"
    by (simp add: settles_def page_def any_element_def prepare_def document_title_def
        update_description_def set_title_def text_children_def sel_head_def sel_title_def
        sel_subscription_schema_def sel_meta_description_def)
  have b: "settles untitled"
    by (simp add: settles_def untitled_def any_element_def prepare_def document_title_def
        update_description_def set_title_def text_children_def sel_head_def sel_title_def
        sel_subscription_schema_def sel_meta_description_def)
  have c: "settles nested_scripts"
    by (simp add: settles_def nested_scripts_def any_element_def prepare_def
        document_title_def update_description_def set_title_def text_children_def
        sel_head_def sel_title_def sel_subscription_schema_def sel_meta_description_def)
  have d: "settles exposed_head"
    by (simp add: settles_def exposed_head_def any_element_def prepare_def document_title_def
        update_description_def set_title_def text_children_def sel_head_def sel_title_def
        sel_subscription_schema_def sel_meta_description_def)
  have e: "settles spare_script"
    by (simp add: settles_def spare_script_def any_element_def prepare_def document_title_def
        update_description_def set_title_def text_children_def sel_head_def sel_title_def
        sel_subscription_schema_def sel_meta_description_def)
  have n: "(1::nat) \<le> 1" "(1::nat) \<le> 2" "(1::nat) \<le> 3"
    by simp_all
  from a b c d e n one_schema_node [of page] one_schema_node [of untitled]
    one_schema_node [of nested_scripts] one_schema_node [of exposed_head]
    one_schema_node [of spare_script]
  show ?thesis
    by blast
qed

section \<open>Properties of the checkout flow\<close>

subsection \<open>The tier passed to the requester\<close>

text \<open>
  C1, as stated, fails: a non-empty tier parameter that is no tier name is not replaced
  by the Basic tier. With the query string \<open>?tier=gold\<close> the requester is invoked with
  \<open>"gold"\<close>.
\<close>

theorem unrecognized_tier_counterexample:
  "URLSearchParams_get [(''tier'', ''gold'')] ''tier'' = Some ''gold''
   \<and> ''gold'' \<notin> recognized_tiers
   \<and> requested (effects (Subscribe (evaluate_module (Some ''pk_test_1'')) signed_in
        [(''tier'', ''gold'')] never_settles)) = [''gold'']
   \<and> ''gold'' \<noteq> SubscriptionTier_Basic"
  by (simp add: Subscribe_def checkout_effect_def setupSubscription_def try_block_def
      catch_block_def effects_def tier_def
      URLSearchParams_get_def never_settles_def signed_in_def evaluate_module_def
      recognized_tiers_def
      SubscriptionTier_Basic_def SubscriptionTier_Pro_def SubscriptionTier_Power_def)

text \<open>
  C1, amended: in an authenticated run with the provider available, the requester is
  invoked exactly once, with the tier parameter itself when that is a non-empty string
  (so with the Pro tier for \<open>"pro"\<close>), and with the Basic tier when the parameter is
  absent or empty.
\<close>

theorem requested_tier:
  assumes "isAuthenticated s" and "isStripeAvailable p"
  shows "requested (effects (Subscribe p s params createSubscription)) = [tier params]
    \<and> (URLSearchParams_get params ''tier'' = Some ''pro'' \<longrightarrow> tier params = SubscriptionTier_Pro)
    \<and> (URLSearchParams_get params ''tier'' = None \<longrightarrow> tier params = SubscriptionTier_Basic)
    \<and> (URLSearchParams_get params ''tier'' = Some [] \<longrightarrow> tier params = SubscriptionTier_Basic)
    \<and> (\<forall>t. URLSearchParams_get params ''tier'' = Some t \<and> t \<noteq> [] \<longrightarrow> tier params = t)"
proof -
  have "requested (effects (Subscribe p s params createSubscription)) = [tier params]"
    using assms
    by (simp add: Subscribe_def checkout_effect_def setupSubscription_def try_block_def
      catch_block_def effects_def split: promise.splits option.splits thrown.splits)
  moreover have "URLSearchParams_get params ''tier'' = Some ''pro'' \<longrightarrow>
      tier params = SubscriptionTier_Pro"
    by (simp add: tier_def SubscriptionTier_Pro_def)
  ultimately show ?thesis
    by (simp add: tier_def)
qed

theorem requested_tier_witness:
  "requested (effects (Subscribe (evaluate_module (Some ''pk_test_1'')) signed_in
      [(''tier'', ''pro'')] never_settles)) = [SubscriptionTier_Pro]
   \<and> requested (effects (Subscribe (evaluate_module (Some ''pk_test_1'')) signed_in
      [(''plan'', ''pro'')] never_settles)) = [SubscriptionTier_Basic]"
proof -
  have a: "isAuthenticated signed_in"
    by (simp add: signed_in_def)
  have b: "isStripeAvailable (evaluate_module (Some ''pk_test_1''))"
    by (simp add: evaluate_module_def)
  have c: "URLSearchParams_get [(''tier'', ''pro'')] ''tier'' = Some ''pro''"
    by (simp add: URLSearchParams_get_def)
  have d: "URLSearchParams_get [(''plan'', ''pro'')] ''tier'' = None"
    by (simp add: URLSearchParams_get_def)
  from requested_tier [OF a b, of "[(''tier'', ''pro'')]" never_settles]
       requested_tier [OF a b, of "[(''plan'', ''pro'')]" never_settles] c d
  show ?thesis by simp
qed

subsection \<open>The view state of a run\<close>




subsection \<open>Provider not configured\<close>

text \<open>
  C3: the provider flag is false exactly when the publishable key is absent or empty;
  in an authenticated run with the flag false the page enters the Error state with the
  fixed configuration message and the requester is never called.
\<close>

theorem provider_unavailable:
  assumes "isAuthenticated s" and "\<not> isStripeAvailable p"
  shows "(let es = effects (Subscribe p s params createSubscription)
     in requested es = []
      \<and> CreateSubscription (tier params) \<notin> set es
      \<and> error (final es)
          = Some ''Payment system is not configured. Please contact the administrator.''
      \<and> render s (final es)
          = ErrorView ''Payment system is not configured. Please contact the administrator.'')
    \<and> (\<not> isStripeAvailable (evaluate_module key) \<longleftrightarrow> key = None \<or> key = Some [])"
proof -
  have "\<not> isStripeAvailable (evaluate_module key) \<longleftrightarrow> key = None \<or> key = Some []"
    by (cases key) (simp_all add: evaluate_module_def)
  then show ?thesis
    using assms
    by (simp add: Subscribe_def checkout_effect_def effects_def final_def initial_def render_def Let_def)
qed

theorem provider_unavailable_witness:
  "requested (effects (Subscribe (evaluate_module (Some [])) signed_in [(''tier'', ''pro'')]
      (resolves_with \<lparr>url = Some ''https://pay.example/session/abc''\<rparr>))) = []
   \<and> render signed_in (final (effects (Subscribe (evaluate_module (Some [])) signed_in
      [(''tier'', ''pro'')] (resolves_with \<lparr>url = Some ''https://pay.example/session/abc''\<rparr>))))
     = ErrorView ''Payment system is not configured. Please contact the administrator.''"
proof -
  have a: "isAuthenticated signed_in"
    by (simp add: signed_in_def)
  have b: "\<not> isStripeAvailable (evaluate_module (Some []))"
    by (simp add: evaluate_module_def)
  from provider_unavailable [OF a b, of "[(''tier'', ''pro'')]"
         "resolves_with \<lparr>url = Some ''https://pay.example/session/abc''\<rparr>"]
  show ?thesis
    by (simp add: Let_def)
qed

subsection \<open>A rejected request\<close>

text \<open>
  C4: when the request rejects with an Error whose message is "card declined" the page
  enters the Error state with that message; when it rejects with a value that is not an
  Error the page enters the Error state with the message "Failed to create
  subscription"; no run lets a rejection escape to the host.
\<close>

theorem rejection_is_caught:
  assumes "isAuthenticated s" and "isStripeAvailable p"
  shows "(let r = Subscribe p s params createSubscription; es = effects r
     in (createSubscription (tier params) = Rejected (Error ''card declined'') \<longrightarrow>
           error (final es) = Some ''card declined''
         \<and> render s (final es) = ErrorView ''card declined''
         \<and> unhandled r = None)
      \<and> (\<forall>v. createSubscription (tier params) = Rejected (NonError v) \<longrightarrow>
           error (final es) = Some ''Failed to create subscription''
         \<and> render s (final es) = ErrorView ''Failed to create subscription''
         \<and> unhandled r = None)
      \<and> unhandled r = None)"
  using assms
  by (auto simp add: Subscribe_def checkout_effect_def setupSubscription_def try_block_def
      catch_block_def effects_def unhandled_def
      final_def initial_def render_def Let_def split: promise.splits option.splits thrown.splits)

theorem rejection_is_caught_witness:
  "render signed_in (final (effects (Subscribe (evaluate_module (Some ''pk_test_1'')) signed_in []
      (rejects_with (Error ''card declined''))))) = ErrorView ''card declined''
   \<and> unhandled (Subscribe (evaluate_module (Some ''pk_test_1'')) signed_in []
      (rejects_with (Error ''card declined''))) = None
   \<and> render signed_in (final (effects (Subscribe (evaluate_module (Some ''pk_test_1'')) signed_in []
      (rejects_with (NonError ''card declined''))))) = ErrorView ''Failed to create subscription''
   \<and> unhandled (Subscribe (evaluate_module (Some ''pk_test_1'')) signed_in []
      (rejects_with (NonError ''card declined''))) = None"
proof -
  have a: "isAuthenticated signed_in"
    by (simp add: signed_in_def)
  have b: "isStripeAvailable (evaluate_module (Some ''pk_test_1''))"
    by (simp add: evaluate_module_def)
  from rejection_is_caught [OF a b, of "[]" "rejects_with (Error ''card declined'')"]
       rejection_is_caught [OF a b, of "[]" "rejects_with (NonError ''card declined'')"]
  show ?thesis
    by (simp add: Let_def rejects_with_def)
qed

subsection \<open>A resolved request\<close>

text \<open>
  C5: when the request resolves with a non-empty URL, the location is set once, to
  exactly that URL, and no state of the run shows the Error view or holds an error
  message.
\<close>

theorem redirect_to_checkout:
  assumes "isAuthenticated s" and "isStripeAvailable p"
    and "createSubscription (tier params) = Fulfilled r"
    and "url r = Some u" and "u \<noteq> []"
  shows "(let es = effects (Subscribe p s params createSubscription)
     in locations es = [u]
      \<and> (\<forall>st \<in> set (states initial es). error st = None)
      \<and> (\<forall>v \<in> set (views s es). \<forall>m. v \<noteq> ErrorView m)
      \<and> (\<forall>m. SetError m \<notin> set es))"
  using assms
  by (auto simp add: Subscribe_def checkout_effect_def setupSubscription_def try_block_def
      catch_block_def effects_def views_def
      render_def initial_def Let_def)

theorem redirect_to_checkout_witness:
  "locations (effects (Subscribe (evaluate_module (Some ''pk_test_1'')) signed_in []
      (resolves_with \<lparr>url = Some ''https://pay.example/session/abc''\<rparr>)))
     = [''https://pay.example/session/abc'']
   \<and> SetError ''Failed to create checkout session''
       \<notin> set (effects (Subscribe (evaluate_module (Some ''pk_test_1''))
          signed_in [] (resolves_with \<lparr>url = Some ''https://pay.example/session/abc''\<rparr>)))"
proof -
  have a: "isAuthenticated signed_in"
    by (simp add: signed_in_def)
  have b: "isStripeAvailable (evaluate_module (Some ''pk_test_1''))"
    by (simp add: evaluate_module_def)
  have c: "resolves_with \<lparr>url = Some ''https://pay.example/session/abc''\<rparr> (tier [])
      = Fulfilled \<lparr>url = Some ''https://pay.example/session/abc''\<rparr>"
    by (simp add: resolves_with_def)
  have d: "url \<lparr>url = Some ''https://pay.example/session/abc''\<rparr>
      = Some ''https://pay.example/session/abc''"
    by simp
  have e: "''https://pay.example/session/abc'' \<noteq> []"
    by simp
  from redirect_to_checkout [where params = "[]" and createSubscription
         = "resolves_with \<lparr>url = Some ''https://pay.example/session/abc''\<rparr>", OF a b c d e]
  show ?thesis
    by (simp add: Let_def)
qed

text \<open>
  C6: when the request resolves with an object that has no URL, the page enters the
  Error state with exactly the message "Failed to create checkout session" and the
  location is never set.
\<close>

theorem no_url_is_an_error:
  assumes "isAuthenticated s" and "isStripeAvailable p"
    and "createSubscription (tier params) = Fulfilled r"
    and "url r = None"
  shows "(let es = effects (Subscribe p s params createSubscription)
     in error (final es) = Some ''Failed to create checkout session''
      \<and> render s (final es) = ErrorView ''Failed to create checkout session''
      \<and> locations es = [])"
  using assms
  by (simp add: Subscribe_def checkout_effect_def setupSubscription_def try_block_def
      catch_block_def effects_def
      final_def initial_def render_def Let_def)

theorem no_url_is_an_error_witness:
  "render signed_in (final (effects (Subscribe (evaluate_module (Some ''pk_test_1'')) signed_in []
      (resolves_with \<lparr>url = None\<rparr>)))) = ErrorView ''Failed to create checkout session''
   \<and> locations (effects (Subscribe (evaluate_module (Some ''pk_test_1'')) signed_in []
      (resolves_with \<lparr>url = None\<rparr>))) = []"
proof -
  have a: "isAuthenticated signed_in"
    by (simp add: signed_in_def)
  have b: "isStripeAvailable (evaluate_module (Some ''pk_test_1''))"
    by (simp add: evaluate_module_def)
  have c: "resolves_with \<lparr>url = None\<rparr> (tier []) = Fulfilled \<lparr>url = None\<rparr>"
    by (simp add: resolves_with_def)
  have d: "url \<lparr>url = None\<rparr> = None"
    by simp
  from no_url_is_an_error [where params = "[]"
         and createSubscription = "resolves_with \<lparr>url = None\<rparr>", OF a b c d]
  show ?thesis
    by (simp add: Let_def)
qed

text \<open>
  C9: when the request resolves with the empty string as URL, the page enters the Error
  state with the message "Failed to create checkout session" and the location is never
  set.
\<close>

theorem empty_url_is_an_error:
  assumes "isAuthenticated s" and "isStripeAvailable p"
    and "createSubscription (tier params) = Fulfilled r"
    and "url r = Some []"
  shows "(let es = effects (Subscribe p s params createSubscription)
     in error (final es) = Some ''Failed to create checkout session''
      \<and> render s (final es) = ErrorView ''Failed to create checkout session''
      \<and> locations es = [])"
  using assms
  by (simp add: Subscribe_def checkout_effect_def setupSubscription_def try_block_def
      catch_block_def effects_def
      final_def initial_def render_def Let_def)

theorem empty_url_is_an_error_witness:
  "render signed_in (final (effects (Subscribe (evaluate_module (Some ''pk_test_1'')) signed_in []
      (resolves_with \<lparr>url = Some []\<rparr>)))) = ErrorView ''Failed to create checkout session''
   \<and> locations (effects (Subscribe (evaluate_module (Some ''pk_test_1'')) signed_in []
      (resolves_with \<lparr>url = Some []\<rparr>))) = []"
proof -
  have a: "isAuthenticated signed_in"
    by (simp add: signed_in_def)
  have b: "isStripeAvailable (evaluate_module (Some ''pk_test_1''))"
    by (simp add: evaluate_module_def)
  have c: "resolves_with \<lparr>url = Some []\<rparr> (tier []) = Fulfilled \<lparr>url = Some []\<rparr>"
    by (simp add: resolves_with_def)
  have d: "url \<lparr>url = Some []\<rparr> = Some []"
    by simp
  from empty_url_is_an_error [where params = "[]"
         and createSubscription = "resolves_with \<lparr>url = Some []\<rparr>", OF a b c d]
  show ?thesis
    by (simp add: Let_def)
qed

subsection \<open>An Error with an empty message\<close>

text \<open>
  C10: when the request rejects with an Error whose message is the empty string, the
  stored error message is the empty string, the page renders the fallback "Redirecting
  to Checkout" screen and not the Error view, and the location was never set.
\<close>

theorem empty_message_shows_redirecting:
  assumes "isAuthenticated s" and "isStripeAvailable p"
    and "createSubscription (tier params) = Rejected (Error [])"
  shows "(let es = effects (Subscribe p s params createSubscription)
     in error (final es) = Some []
      \<and> isLoading (final es) = False
      \<and> render s (final es) = RedirectingView
      \<and> (\<forall>m. render s (final es) \<noteq> ErrorView m)
      \<and> locations es = [])"
  using assms
  by (simp add: Subscribe_def checkout_effect_def setupSubscription_def try_block_def
      catch_block_def effects_def
      final_def initial_def render_def Let_def)

theorem empty_message_shows_redirecting_witness:
  "error (final (effects (Subscribe (evaluate_module (Some ''pk_test_1'')) signed_in []
      (rejects_with (Error []))))) = Some []
   \<and> render signed_in (final (effects (Subscribe (evaluate_module (Some ''pk_test_1'')) signed_in []
      (rejects_with (Error []))))) = RedirectingView
   \<and> locations (effects (Subscribe (evaluate_module (Some ''pk_test_1'')) signed_in []
      (rejects_with (Error [])))) = []"
proof -
  have a: "isAuthenticated signed_in"
    by (simp add: signed_in_def)
  have b: "isStripeAvailable (evaluate_module (Some ''pk_test_1''))"
    by (simp add: evaluate_module_def)
  have c: "rejects_with (Error []) (tier []) = Rejected (Error [])"
    by (simp add: rejects_with_def)
  from empty_message_shows_redirecting [where params = "[]"
         and createSubscription = "rejects_with (Error [])", OF a b c]
  show ?thesis
    by (simp add: Let_def)
qed

subsection \<open>When the provider flag is derived\<close>

text \<open>
  C7, as stated, fails: the flag is bound once, when the module is evaluated. A run
  after the configuration was changed to "no key" still uses the flag of the module
  and calls the requester, where a run deriving the flag from its own configuration
  ends with the configuration error.
\<close>

theorem stale_flag_counterexample:
  "VITE_STRIPE_PUBLIC_KEY (set_config None (evaluate_module (Some ''pk_test_1''))) = None
   \<and> effects (Subscribe (set_config None (evaluate_module (Some ''pk_test_1''))) signed_in []
        never_settles) = [CreateSubscription SubscriptionTier_Basic]
   \<and> effects (Subscribe (evaluate_module None) signed_in [] never_settles)
       = [SetError ''Payment system is not configured. Please contact the administrator.'',
          SetIsLoading False]"
  by (simp add: Subscribe_def checkout_effect_def setupSubscription_def try_block_def
      catch_block_def effects_def tier_def
      URLSearchParams_get_def never_settles_def signed_in_def evaluate_module_def
      set_config_def)

text \<open>
  C7, amended: the provider-availability flag is derived from the configuration once,
  when the module is evaluated, as "the key is a non-empty string". Every run of the
  flow uses that flag: changing the configuration afterwards changes neither the flag
  nor the outcome of a run.
\<close>

theorem flag_bound_at_module_evaluation:
  "isStripeAvailable (evaluate_module key) = truthy key
   \<and> isStripeAvailable (set_config key' (evaluate_module key)) = truthy key
   \<and> Subscribe (set_config key' p) s params createSubscription
       = Subscribe p s params createSubscription"
  by (simp add: Subscribe_def checkout_effect_def evaluate_module_def set_config_def)

end
